theory Spec2Isabelle
  imports Main "HOL-Library.Word" "HOL-Library.Signed_Division"
begin

unbundle bit_operations_syntax

section \<open>The CBC protocol stack of the IOC device model (hw/platform/ioc\_cbc.c)\<close>

text \<open>
  The file includes \<^verbatim>\<open>ioc.h\<close>, which declares the structures and every macro
  constant the stack uses. The constants are taken as a parameter: a record with one
  field per macro or enumerator, named as in the code. Sizes, positions, bit offsets,
  masks and enumerators are non-negative integer constants (\<open>nat\<close>); the code's
  arithmetic on them is written out at the type the C expression has. The two
  wakeup-reason masks are only combined with \<open>uint32_t\<close> values and are given at
  that type.
\<close>

type_synonym u8 = "8 word"
type_synonym u16 = "16 word"
type_synonym u32 = "32 word"

record cbc_consts =
  CBC_RING_BUFFER_SIZE :: nat
  CBC_MIN_FRAME_SIZE :: nat
  CBC_MAX_FRAME_SIZE :: nat
  CBC_MAX_SERVICE_SIZE :: nat
  CBC_SOF_VALUE :: nat
  CBC_EXT_VALUE :: nat
  CBC_SOF_POS :: nat
  CBC_ELS_POS :: nat
  CBC_ADDR_POS :: nat
  CBC_SRV_POS :: nat
  CBC_PAYLOAD_POS :: nat
  CBC_EXT_OFFSET :: nat
  CBC_EXT_MASK :: nat
  CBC_LEN_OFFSET :: nat
  CBC_LEN_MASK :: nat
  CBC_SEQ_OFFSET :: nat
  CBC_SEQ_MASK :: nat
  CBC_MUX_OFFSET :: nat
  CBC_MUX_MASK :: nat
  CBC_PRIO_OFFSET :: nat
  CBC_PRIO_MASK :: nat
  CBC_PRIO_HIGH :: nat
  CBC_PRIO_MEDIUM :: nat
  CBC_PRIO_LOW :: nat
  CBC_LEN_UNIT :: nat
  CBC_GRANULARITY :: nat
  CBC_LINK_HDR_SIZE :: nat
  CBC_ADDR_HDR_SIZE :: nat
  CBC_SRV_HDR_SIZE :: nat
  CBC_CHKSUM_SIZE :: nat
  IOC_NATIVE_PMT :: nat
  IOC_NATIVE_LFCC :: nat
  IOC_NATIVE_SIGNAL :: nat
  IOC_NATIVE_DIAG :: nat
  IOC_NATIVE_DLT :: nat
  IOC_NATIVE_RAW0 :: nat
  IOC_NATIVE_RAW11 :: nat
  IOC_VIRTUAL_UART :: nat
  CBC_SC_WK_RSN :: nat
  CBC_SC_HB :: nat
  CBC_HB_ACTIVE :: nat
  CBC_HB_STANDBY :: nat
  CBC_HB_INITIAL :: nat
  CBC_WK_RSN_SOC :: u32
  CBC_WK_RSN_ALL :: u32
  CBC_SD_SINGLE_SIGNAL :: nat
  CBC_SD_MULTI_SIGNAL :: nat
  CBC_SD_GROUP_SIGNAL :: nat
  CBC_SD_INVAL_SSIG :: nat
  CBC_SD_INVAL_MSIG :: nat
  CBC_SD_INVAL_SGRP :: nat
  CBC_SD_INVAL_MGRP :: nat
  CBC_SD_OPEN_CHANNEL :: nat
  CBC_SD_RESET_CHANNEL :: nat
  CBC_SD_CLOSE_CHANNEL :: nat
  CBC_REQ_T_PROT :: nat
  CBC_REQ_T_SOC :: nat
  CBC_QUEUE_T_TX :: nat
  CBC_INACTIVE :: nat
  CBC_INVAL_T_SIGNAL :: nat
  CBC_INVAL_T_GROUP :: nat

text \<open>
  The output of the two printf macros is recorded as a list of events. \<open>WPRINTF\<close>
  always prints; \<open>DPRINTF\<close> prints when the file's static \<open>ioc_cbc_debug\<close> is set,
  and the event records that the macro was reached.
\<close>

datatype log_event = WPRINTF string | DPRINTF string

subsection \<open>Ring buffer\<close>

record cbc_ring =
  ring_head :: nat
  ring_tail :: nat
  ring_buf :: "u8 list"

text \<open>
  \<open>cbc_copy_to_ring(buf, size, ring)\<close>: the pair \<open>(buf, size)\<close> is the list of the
  \<open>size\<close> bytes. The result is the return code, the ring and the messages printed.
\<close>

fun cbc_copy_to_ring :: "cbc_consts \<Rightarrow> u8 list \<Rightarrow> cbc_ring \<Rightarrow> int \<times> cbc_ring \<times> log_event list" where
  "cbc_copy_to_ring K [] ring = (0, ring, [])"
| "cbc_copy_to_ring K (b # bs) ring =
     (let pos = (ring_tail ring + 1) AND (CBC_RING_BUFFER_SIZE K - 1) in
      if pos \<noteq> ring_head ring
      then cbc_copy_to_ring K bs
             (ring\<lparr>ring_buf := (ring_buf ring)[ring_tail ring := b], ring_tail := pos\<rparr>)
      else (- 1, ring, [WPRINTF ''ioc cbc ring buffer is full!!'']))"

definition cbc_ring_skips :: "cbc_consts \<Rightarrow> cbc_ring \<Rightarrow> nat \<Rightarrow> cbc_ring" where
  "cbc_ring_skips K ring bytes =
     ring\<lparr>ring_head := (ring_head ring + bytes) AND (CBC_RING_BUFFER_SIZE K - 1)\<rparr>"

text \<open>
  The number of bytes in the ring, as \<open>cbc_unpack_link\<close> computes it in its local
  \<open>avalids\<close> (an \<open>int\<close>).
\<close>

definition ring_avalids :: "cbc_consts \<Rightarrow> cbc_ring \<Rightarrow> int" where
  "ring_avalids K ring =
     (let avalids = int (ring_tail ring) - int (ring_head ring) in
      if avalids \<ge> 0 then avalids else int (CBC_RING_BUFFER_SIZE K) + avalids)"

subsection \<open>Checksum\<close>

text \<open>
  Both checksum loops accumulate in a \<open>uint16_t\<close>: each addition is done on \<open>int\<close>
  and stored back truncated to 16 bits, which is addition of 16-bit words.
\<close>

definition cbc_cal_chksum :: "u8 list \<Rightarrow> u16" where
  "cbc_cal_chksum data = fold (\<lambda>b value. value + (0x100 - ucast b)) data 0"

definition cbc_verify_chksum :: "cbc_consts \<Rightarrow> cbc_ring \<Rightarrow> nat \<Rightarrow> u8 \<Rightarrow> int" where
  "cbc_verify_chksum K ring sz c =
     (let value = fold (\<lambda>i value.
                     let pos = (ring_head ring + i) AND (CBC_RING_BUFFER_SIZE K - 1)
                     in value + (0x100 - ucast (ring_buf ring ! pos)))
                  [0..<sz] (0 :: u16)
      in if value AND 0xFF = ucast c then 0 else - 1)"

text \<open>
  \<open>cbc_fill_padding(buf, size, unit)\<close> returns the padded size and the buffer. The
  sizes are \<open>size_t\<close>; \<open>size - CBC_CHKSUM_SIZE\<close> does not wrap when the size is at
  least the checksum size, which holds at the one call site whenever the link header
  size includes the checksum byte. A write past the end of the array is undefined
  in C; \<open>xs[i := v]\<close> leaves the list unchanged there.
\<close>

definition cbc_fill_padding :: "cbc_consts \<Rightarrow> u8 list \<Rightarrow> nat \<Rightarrow> nat \<Rightarrow> nat \<times> u8 list" where
  "cbc_fill_padding K buf sz unit =
     (let left = sz mod unit in
      if left \<noteq> 0
      then (let paddings = sz + unit - left
            in (paddings, fold (\<lambda>i b. b[i := 0xFF]) [sz - CBC_CHKSUM_SIZE K..<paddings] buf))
      else (sz, buf))"

subsection \<open>Requests, configuration and the packet context\<close>

record cbc_signal =
  sig_id :: u16
  sig_len :: nat
  sig_flag :: nat

record cbc_group =
  grp_id :: u16
  grp_flag :: nat

typedecl wlist_signal
typedecl wlist_group

record cbc_config =
  cbc_sig_num :: nat
  cbc_grp_num :: nat
  wlist_sig_num :: nat
  wlist_grp_num :: nat
  cbc_sig_tbl :: "cbc_signal list"
  cbc_grp_tbl :: "cbc_group list"
  wlist_sig_tbl :: "wlist_signal list"
  wlist_grp_tbl :: "wlist_group list"

record cbc_request =
  srv_len :: int
  link_len :: int
  req_id :: nat
  rtype :: nat
  req_buf :: "u8 list"

record cbc_pkt =
  soc_active :: u8
  hb_state :: u8
  reason :: u32
  boot_reason :: u32
  req :: cbc_request
  cfg :: cbc_config
  qtype :: nat

text \<open>
  The packet context extended by what the functions keep outside of it: the static
  \<open>tx_seq_counter\<close> of \<open>cbc_pack_link\<close>, the static \<open>is_active\<close> of
  \<open>cbc_process_signal\<close>, the calls of the transmit primitive \<open>ioc_ch_xmit\<close> made
  so far (channel and bytes handed over), the primitive's answer, and the console.
\<close>

record cbc_tx = cbc_pkt +
  tx_seq_counter :: nat
  is_active :: bool
  xmit_log :: "(nat \<times> u8 list) list"
  xmit_result :: "nat \<Rightarrow> u8 list \<Rightarrow> int"
  console :: "log_event list"

text \<open>
  Modelled from the spec: \<open>ioc_ch_xmit\<close>, the transmit primitive
  \<open>transmit(channel_id, bytes) -> success/failure\<close> of the channel layer (ioc.c, not
  among the sources). The call is recorded; the result is the environment's answer.
\<close>

definition ioc_ch_xmit :: "cbc_tx \<Rightarrow> nat \<Rightarrow> u8 list \<Rightarrow> int \<times> cbc_tx" where
  "ioc_ch_xmit w ch data = (xmit_result w ch data, w\<lparr>xmit_log := xmit_log w @ [(ch, data)]\<rparr>)"

abbreviation set_buf :: "cbc_tx \<Rightarrow> nat \<Rightarrow> u8 \<Rightarrow> cbc_tx" where
  "set_buf w i v \<equiv> w\<lparr>req := (req w)\<lparr>req_buf := (req_buf (req w))[i := v]\<rparr>\<rparr>"

abbreviation get_buf :: "cbc_tx \<Rightarrow> nat \<Rightarrow> u8" where
  "get_buf w i \<equiv> req_buf (req w) ! i"

abbreviation printd :: "cbc_tx \<Rightarrow> string \<Rightarrow> cbc_tx" where
  "printd w msg \<equiv> w\<lparr>console := console w @ [DPRINTF msg]\<rparr>"

subsection \<open>Packing: address layer, link layer, send\<close>

definition cbc_pack_address :: "cbc_consts \<Rightarrow> cbc_tx \<Rightarrow> cbc_tx" where
  "cbc_pack_address K w =
     (let mux = (of_nat (req_id (req w)) :: u8);
          prio = (if unat mux = IOC_NATIVE_PMT K \<or> unat mux = IOC_NATIVE_LFCC K \<or>
                     unat mux = IOC_NATIVE_SIGNAL K \<or> unat mux = IOC_NATIVE_DLT K
                  then of_nat (CBC_PRIO_HIGH K)
                  else if unat mux = IOC_NATIVE_DIAG K then of_nat (CBC_PRIO_LOW K)
                  else of_nat (CBC_PRIO_MEDIUM K) :: u8);
          w = set_buf w (CBC_ADDR_POS K)
                (of_nat (push_bit (CBC_MUX_OFFSET K) (unat mux AND CBC_MUX_MASK K)))
      in set_buf w (CBC_ADDR_POS K)
           (get_buf w (CBC_ADDR_POS K) OR
            of_nat (push_bit (CBC_PRIO_OFFSET K) (unat prio AND CBC_PRIO_MASK K))))"

text \<open>
  \<open>cbc_pack_link\<close>: \<open>srv_len\<close> is an \<open>int\<close>, so \<open>(srv_len - 1)/CBC_LEN_UNIT\<close>
  truncates towards zero (\<open>sdiv\<close>); the frame length is a \<open>size_t\<close>, obtained
  from \<open>srv_len\<close> plus the header sizes (no wrap for a non-negative \<open>srv_len\<close>).
\<close>

definition cbc_pack_link :: "cbc_consts \<Rightarrow> cbc_tx \<Rightarrow> cbc_tx" where
  "cbc_pack_link K w =
     (if srv_len (req w) > int (CBC_MAX_SERVICE_SIZE K)
      then printd w ''ioc pack req with wrong service length''
      else
        (let len = nat (srv_len (req w) + int (CBC_ADDR_HDR_SIZE K) + int (CBC_LINK_HDR_SIZE K));
             (len, buf) = cbc_fill_padding K (req_buf (req w)) len (CBC_GRANULARITY K);
             w = w\<lparr>req := (req w)\<lparr>req_buf := buf\<rparr>\<rparr>;
             w = set_buf w (CBC_SOF_POS K) (of_nat (CBC_SOF_VALUE K));
             w = set_buf w (CBC_ELS_POS K)
                   (of_nat (push_bit (CBC_EXT_OFFSET K) (CBC_EXT_VALUE K AND CBC_EXT_MASK K)));
             w = set_buf w (CBC_ELS_POS K)
                   (get_buf w (CBC_ELS_POS K) OR
                    of_int (push_bit (CBC_LEN_OFFSET K)
                      (((srv_len (req w) - 1) sdiv int (CBC_LEN_UNIT K)) AND int (CBC_LEN_MASK K))));
             w = set_buf w (CBC_ELS_POS K)
                   (get_buf w (CBC_ELS_POS K) OR
                    of_nat (push_bit (CBC_SEQ_OFFSET K) (tx_seq_counter w AND CBC_SEQ_MASK K)));
             checksum = cbc_cal_chksum (take (len - 1) (req_buf (req w)));
             w = set_buf w (len - 1) (ucast (checksum AND 0xFF));
             w = w\<lparr>req := (req w)\<lparr>link_len := int len\<rparr>\<rparr>
         in w\<lparr>tx_seq_counter := (tx_seq_counter w + 1) AND CBC_SEQ_MASK K\<rparr>))"

text \<open>
  \<open>cbc_send_pkt\<close> hands \<open>len\<close> bytes starting at \<open>data\<close> to \<open>ioc_ch_xmit\<close>.
\<close>

definition cbc_send_pkt :: "cbc_consts \<Rightarrow> cbc_tx \<Rightarrow> cbc_tx" where
  "cbc_send_pkt K w =
     (let (w, ch, data) =
            (if link_len (req w) = 0
             then (let w = cbc_pack_address K w;
                       w = cbc_pack_link K w
                   in (w, IOC_VIRTUAL_UART K, take (nat (link_len (req w))) (req_buf (req w))))
             else (w, req_id (req w),
                   take (nat (srv_len (req w))) (drop (CBC_SRV_POS K) (req_buf (req w)))));
          (rc, w) = ioc_ch_xmit w ch data
      in if rc < 0 then printd w ''ioc xmit failed on channel'' else w)"

subsection \<open>Lifecycle: heartbeat and wakeup reason\<close>

definition cbc_update_heartbeat :: "cbc_consts \<Rightarrow> cbc_tx \<Rightarrow> u8 \<Rightarrow> u8 \<Rightarrow> cbc_tx" where
  "cbc_update_heartbeat K w cmd sus_action =
     (let stat = (if unat cmd = CBC_HB_ACTIVE K \<or> unat cmd = CBC_HB_STANDBY K \<or>
                     unat cmd = CBC_HB_INITIAL K
                  then 1 else 0 :: u8)
      in if stat \<noteq> hb_state w
         then (let w = w\<lparr>qtype := CBC_QUEUE_T_TX K\<rparr>;
                   w = w\<lparr>req := (req w)\<lparr>rtype := CBC_REQ_T_SOC K\<rparr>\<rparr>;
                   w = set_buf w 0 stat
               in w\<lparr>hb_state := stat\<rparr>)
         else w)"

definition cbc_update_wakeup_reason :: "cbc_consts \<Rightarrow> cbc_tx \<Rightarrow> u32 \<Rightarrow> cbc_tx" where
  "cbc_update_wakeup_reason K w reason0 =
     (let (w, reason) =
            (if soc_active w \<noteq> 0
             then (w\<lparr>boot_reason := 0\<rparr>, reason0 OR CBC_WK_RSN_SOC K)
             else (w, reason0 AND NOT (CBC_WK_RSN_SOC K)));
          reason = reason AND CBC_WK_RSN_ALL K;
          reason = (if boot_reason w \<noteq> 0 then boot_reason w else reason);
          w = w\<lparr>reason := reason\<rparr>;
          w = set_buf w (CBC_PAYLOAD_POS K + 0) (ucast reason);
          w = set_buf w (CBC_PAYLOAD_POS K + 1) (ucast (drop_bit 8 reason));
          w = set_buf w (CBC_PAYLOAD_POS K + 2) (ucast (drop_bit 16 reason));
          w = w\<lparr>req := (req w)\<lparr>req_id := IOC_NATIVE_LFCC K\<rparr>\<rparr>;
          w = set_buf w (CBC_SRV_POS K) (of_nat (CBC_SC_WK_RSN K));
          w = w\<lparr>req := (req w)\<lparr>srv_len := 4\<rparr>\<rparr>;
          w = w\<lparr>req := (req w)\<lparr>link_len := 0\<rparr>\<rparr>
      in cbc_send_pkt K w)"

subsection \<open>Signal and group tables\<close>

text \<open>
  \<open>cbc_find_signal(id, table, size)\<close> scans the first \<open>size\<close> entries and returns a
  pointer to the first entry with the id, or \<open>NULL\<close>: here the index of that entry.
\<close>

primrec find_signal_from :: "nat \<Rightarrow> u16 \<Rightarrow> cbc_signal list \<Rightarrow> nat option" where
  "find_signal_from i id' [] = None"
| "find_signal_from i id' (s # tbl) =
     (if id' = sig_id s then Some i else find_signal_from (Suc i) id' tbl)"

definition cbc_find_signal :: "u16 \<Rightarrow> cbc_signal list \<Rightarrow> nat \<Rightarrow> nat option" where
  "cbc_find_signal id' table sz = find_signal_from 0 id' (take sz table)"

primrec find_group_from :: "nat \<Rightarrow> u16 \<Rightarrow> cbc_group list \<Rightarrow> nat option" where
  "find_group_from i id' [] = None"
| "find_group_from i id' (g # tbl) =
     (if id' = grp_id g then Some i else find_group_from (Suc i) id' tbl)"

definition cbc_find_signal_group :: "u16 \<Rightarrow> cbc_group list \<Rightarrow> nat \<Rightarrow> nat option" where
  "cbc_find_signal_group id' table sz = find_group_from 0 id' (take sz table)"

definition cbc_get_signal_len :: "u16 \<Rightarrow> cbc_signal list \<Rightarrow> nat \<Rightarrow> int" where
  "cbc_get_signal_len id' table sz =
     (case cbc_find_signal id' table sz of
        None \<Rightarrow> 0
      | Some p \<Rightarrow> (int (sig_len (table ! p)) + 7) div 8)"

definition cbc_disable_signal :: "cbc_consts \<Rightarrow> u16 \<Rightarrow> cbc_signal list \<Rightarrow> nat \<Rightarrow> cbc_signal list" where
  "cbc_disable_signal K id' table sz =
     (case cbc_find_signal id' table sz of
        None \<Rightarrow> table
      | Some p \<Rightarrow> table[p := (table ! p)\<lparr>sig_flag := CBC_INACTIVE K\<rparr>])"

definition cbc_disable_signal_group :: "cbc_consts \<Rightarrow> u16 \<Rightarrow> cbc_group list \<Rightarrow> nat \<Rightarrow> cbc_group list" where
  "cbc_disable_signal_group K id' table sz =
     (case cbc_find_signal_group id' table sz of
        None \<Rightarrow> table
      | Some p \<Rightarrow> table[p := (table ! p)\<lparr>grp_flag := CBC_INACTIVE K\<rparr>])"

text \<open>The two whitelist checks are stubs in the code: they return 0 for every id.\<close>

definition wlist_verify_signal :: "u16 \<Rightarrow> wlist_signal list \<Rightarrow> nat \<Rightarrow> int" where
  "wlist_verify_signal id' list sz = 0"

definition wlist_verify_group :: "u16 \<Rightarrow> wlist_group list \<Rightarrow> nat \<Rightarrow> int" where
  "wlist_verify_group id' list sz = 0"

text \<open>A 16-bit id read from two payload bytes, low byte first.\<close>

definition payload_id :: "cbc_consts \<Rightarrow> cbc_tx \<Rightarrow> nat \<Rightarrow> u16" where
  "payload_id K w i =
     ucast (get_buf w (CBC_PAYLOAD_POS K + i)) OR
     push_bit 8 (ucast (get_buf w (CBC_PAYLOAD_POS K + i + 1)))"

definition cbc_set_invalidation :: "cbc_consts \<Rightarrow> cbc_tx \<Rightarrow> nat \<Rightarrow> cbc_tx" where
  "cbc_set_invalidation K w type =
     (let num = get_buf w (CBC_PAYLOAD_POS K + 1) in
      if unat num * 2 + 2 \<ge> CBC_MAX_SERVICE_SIZE K
      then printd w ''ioc cbc group number is invalid''
      else fold (\<lambda>i w.
             let id' = payload_id K w (i * 2 + 2) in
             if type = CBC_INVAL_T_SIGNAL K
             then w\<lparr>cfg := (cfg w)\<lparr>cbc_sig_tbl :=
                    cbc_disable_signal K id' (cbc_sig_tbl (cfg w)) (cbc_sig_num (cfg w))\<rparr>\<rparr>
             else if type = CBC_INVAL_T_GROUP K
             then w\<lparr>cfg := (cfg w)\<lparr>cbc_grp_tbl :=
                    cbc_disable_signal_group K id' (cbc_grp_tbl (cfg w)) (cbc_grp_num (cfg w))\<rparr>\<rparr>
             else printd w ''ioc invalidation is not defined'')
           [0..<unat num] w)"

subsection \<open>Multi-signal forwarding\<close>

text \<open>
  One pass of the body of the loop of \<open>cbc_forward_signals\<close>, on the locals
  \<open>offset\<close>, \<open>num\<close> and \<open>valids\<close>; the result says whether the safety check
  made the function return. \<open>offset\<close> and \<open>valids\<close> are \<open>int\<close>s used as indices.
\<close>

definition cbc_forward_body ::
  "cbc_consts \<Rightarrow> cbc_tx \<times> int \<times> u8 \<times> int \<Rightarrow> bool \<times> cbc_tx \<times> int \<times> u8 \<times> int" where
  "cbc_forward_body K st =
     (case st of (w, offset, num, valids) \<Rightarrow>
      let id' = payload_id K w (nat offset);
          signal_len = cbc_get_signal_len id' (cbc_sig_tbl (cfg w)) (cbc_sig_num (cfg w)) + 2;
          (w, num, valids) =
            (if wlist_verify_signal id' (wlist_sig_tbl (cfg w)) (wlist_sig_num (cfg w)) = 0
             then (if valids < offset
                   then (fold (\<lambda>j w. set_buf w (CBC_PAYLOAD_POS K + nat (valids + int j))
                                        (get_buf w (CBC_PAYLOAD_POS K + nat (offset + int j))))
                           [0..<nat signal_len] w,
                         num + 1, valids + signal_len)
                   else (w, num + 1, valids + signal_len))
             else (w, num, valids));
          offset = offset + signal_len
      in if offset + 1 > int (CBC_MAX_SERVICE_SIZE K)
         then (True, printd w ''ioc offset is error in forward signal'', offset, num, valids)
         else (False, w, offset, num, valids))"

function cbc_forward_loop ::
  "cbc_consts \<Rightarrow> int \<Rightarrow> cbc_tx \<times> int \<times> u8 \<times> int \<Rightarrow> bool \<times> cbc_tx \<times> int \<times> u8 \<times> int" where
  "cbc_forward_loop K i st =
     (if i < uint (get_buf (fst st) (CBC_PAYLOAD_POS K))
      then (case cbc_forward_body K st of
              (True, st') \<Rightarrow> (True, st')
            | (False, st') \<Rightarrow> cbc_forward_loop K (i + 1) st')
      else (False, st))"
  by pat_completeness auto
termination
proof (relation "measure (\<lambda>(K, i, st). nat (256 - i))")
  show "wf (measure (\<lambda>(K, i, st). nat (256 - i)))" by simp
next
  fix K :: cbc_consts and i :: int and st :: "cbc_tx \<times> int \<times> u8 \<times> int"
    and x1 :: bool and x2 :: "cbc_tx \<times> int \<times> u8 \<times> int"
  assume "i < uint (get_buf (fst st) (CBC_PAYLOAD_POS K))"
  moreover have "uint (get_buf (fst st) (CBC_PAYLOAD_POS K)) < 256"
    using uint_bounded [of "get_buf (fst st) (CBC_PAYLOAD_POS K)"] by simp
  ultimately show "((K, i + 1, x2), K, i, st) \<in> measure (\<lambda>(K, i, st). nat (256 - i))"
    by simp
qed

declare cbc_forward_loop.simps [simp del]

definition cbc_forward_signals :: "cbc_consts \<Rightarrow> cbc_tx \<Rightarrow> cbc_tx" where
  "cbc_forward_signals K w =
     (case cbc_forward_loop K 0 (w, 1, 0, 1) of
        (True, w, offset, num, valids) \<Rightarrow> w
      | (False, w, offset, num, valids) \<Rightarrow>
          if num > 0
          then (let w = set_buf w (CBC_PAYLOAD_POS K + 0) num;
                    w = set_buf w (CBC_SRV_POS K) (of_nat (CBC_SD_MULTI_SIGNAL K));
                    w = w\<lparr>req := (req w)\<lparr>srv_len := valids + int (CBC_SRV_HDR_SIZE K)\<rparr>\<rparr>
                in cbc_send_pkt K w)
          else w)"

subsection \<open>Service dispatch\<close>

definition cbc_process_lifecycle :: "cbc_consts \<Rightarrow> cbc_tx \<Rightarrow> cbc_tx" where
  "cbc_process_lifecycle K w =
     (let cmd = get_buf w (CBC_SRV_POS K);
          p0 = get_buf w (CBC_PAYLOAD_POS K + 0);
          p1 = get_buf w (CBC_PAYLOAD_POS K + 1);
          p2 = get_buf w (CBC_PAYLOAD_POS K + 2)
      in if unat cmd = CBC_SC_WK_RSN K
         then cbc_update_wakeup_reason K w
                (ucast p0 OR push_bit 8 (ucast p1) OR push_bit 16 (ucast p2))
         else if unat cmd = CBC_SC_HB K
         then cbc_update_heartbeat K w p0 p1
         else printd w ''ioc lifecycle command can not be handled'')"

definition cbc_process_signal :: "cbc_consts \<Rightarrow> cbc_tx \<Rightarrow> cbc_tx" where
  "cbc_process_signal K w =
     (let cmd = unat (get_buf w (CBC_SRV_POS K)) in
      if link_len (req w) = 0 \<and> is_active w = False \<and>
         (cmd = CBC_SD_SINGLE_SIGNAL K \<or> cmd = CBC_SD_MULTI_SIGNAL K \<or>
          cmd = CBC_SD_GROUP_SIGNAL K)
      then w
      else if cmd = CBC_SD_SINGLE_SIGNAL K
      then (if wlist_verify_signal (payload_id K w 0) (wlist_sig_tbl (cfg w))
                 (wlist_sig_num (cfg w)) = 0
            then cbc_send_pkt K w else w)
      else if cmd = CBC_SD_MULTI_SIGNAL K
      then cbc_forward_signals K w
      else if cmd = CBC_SD_GROUP_SIGNAL K
      then (if wlist_verify_group (payload_id K w 0) (wlist_grp_tbl (cfg w))
                 (wlist_grp_num (cfg w)) = 0
            then cbc_send_pkt K w else w)
      else if cmd = CBC_SD_INVAL_SSIG K
      then w\<lparr>cfg := (cfg w)\<lparr>cbc_sig_tbl :=
             cbc_disable_signal K (payload_id K w 0) (cbc_sig_tbl (cfg w)) (cbc_sig_num (cfg w))\<rparr>\<rparr>
      else if cmd = CBC_SD_INVAL_MSIG K
      then cbc_set_invalidation K w (CBC_INVAL_T_SIGNAL K)
      else if cmd = CBC_SD_INVAL_SGRP K
      then w\<lparr>cfg := (cfg w)\<lparr>cbc_grp_tbl :=
             cbc_disable_signal_group K (payload_id K w 0) (cbc_grp_tbl (cfg w))
               (cbc_grp_num (cfg w))\<rparr>\<rparr>
      else if cmd = CBC_SD_INVAL_MGRP K
      then cbc_set_invalidation K w (CBC_INVAL_T_GROUP K)
      else if cmd = CBC_SD_OPEN_CHANNEL K \<or> cmd = CBC_SD_RESET_CHANNEL K
      then w\<lparr>is_active := True\<rparr>
      else if cmd = CBC_SD_CLOSE_CHANNEL K
      then w\<lparr>is_active := False\<rparr>
      else printd w ''ioc got an new operation of signal channel'')"

definition cbc_rx_handler :: "cbc_consts \<Rightarrow> cbc_tx \<Rightarrow> cbc_tx" where
  "cbc_rx_handler K w =
     (if rtype (req w) \<noteq> CBC_REQ_T_PROT K then w
      else
        (let mux = (of_nat (drop_bit (CBC_MUX_OFFSET K) (unat (get_buf w (CBC_ADDR_POS K)))
                            AND CBC_MUX_MASK K) :: u8);
             w = w\<lparr>req := (req w)\<lparr>req_id := unat mux\<rparr>\<rparr>
         in if unat mux = IOC_NATIVE_LFCC K then cbc_process_lifecycle K w
            else if unat mux = IOC_NATIVE_SIGNAL K then cbc_process_signal K w
            else if IOC_NATIVE_RAW0 K \<le> unat mux \<and> unat mux \<le> IOC_NATIVE_RAW11 K
            then cbc_send_pkt K w
            else printd w ''ioc unpack wrong channel''))"

definition cbc_tx_handler :: "cbc_consts \<Rightarrow> cbc_tx \<Rightarrow> cbc_tx" where
  "cbc_tx_handler K w =
     (if rtype (req w) = CBC_REQ_T_PROT K
      then (if req_id (req w) = IOC_NATIVE_LFCC K then cbc_process_lifecycle K w
            else if req_id (req w) = IOC_NATIVE_SIGNAL K then cbc_process_signal K w
            else if IOC_NATIVE_RAW0 K \<le> req_id (req w) \<and> req_id (req w) \<le> IOC_NATIVE_RAW11 K
            then cbc_send_pkt K w
            else printd w ''ioc cbc tx handler got invalid channel'')
      else if rtype (req w) = CBC_REQ_T_SOC K
      then (let w = w\<lparr>soc_active := get_buf w 0\<rparr>
            in cbc_update_wakeup_reason K w (reason w))
      else printd w ''ioc invalid cbc_request type in tx'')"

subsection \<open>Deframing\<close>

text \<open>
  The receiving side: the ring, the two statics of \<open>cbc_unpack_link\<close>, the requests
  handed to \<open>ioc_build_request\<close> so far, and the console.
\<close>

record ioc_dev =
  ring :: cbc_ring
  remains :: int
  rx_seq_counter :: int
  rx_queue :: "cbc_request list"
  dev_console :: "log_event list"

text \<open>
  Modelled from the spec: \<open>ioc_build_request(ioc, link_len, srv_len)\<close>, the
  request-construction primitive of ioc.c (not among the sources). It creates the
  decoded request for the frame at the head of the ring, of length \<open>link_len\<close> and
  payload length \<open>srv_len\<close>, as a protocol request holding the raw bytes of the frame,
  and enqueues it for the rx handler, which fills in the channel id.
\<close>

definition ioc_build_request :: "cbc_consts \<Rightarrow> ioc_dev \<Rightarrow> int \<Rightarrow> int \<Rightarrow> ioc_dev" where
  "ioc_build_request K ioc link_len' srv_len' =
     ioc\<lparr>rx_queue := rx_queue ioc @
       [\<lparr>srv_len = srv_len', link_len = link_len', req_id = 0, rtype = CBC_REQ_T_PROT K,
         req_buf = map (\<lambda>i. ring_buf (ring ioc) !
                               ((ring_head (ring ioc) + i) AND (CBC_RING_BUFFER_SIZE K - 1)))
                     [0..<nat link_len']\<rparr>]\<rparr>"

datatype 'a loop_step = Break 'a | Continue 'a

text \<open>One pass of the body of the \<open>for (;;)\<close> loop of \<open>cbc_unpack_link\<close>.\<close>

definition cbc_unpack_body :: "cbc_consts \<Rightarrow> ioc_dev \<Rightarrow> ioc_dev loop_step" where
  "cbc_unpack_body K ioc =
     (let avalids = ring_avalids K (ring ioc) in
      if avalids < int (CBC_MIN_FRAME_SIZE K) \<or> avalids < remains ioc then Break ioc
      else
        (let ioc = ioc\<lparr>remains := 0\<rparr> in
         if unat (ring_buf (ring ioc) ! ring_head (ring ioc)) \<noteq> CBC_SOF_VALUE K
         then Continue (ioc\<lparr>ring := cbc_ring_skips K (ring ioc) 1\<rparr>)
         else
           (let els_pos = (ring_head (ring ioc) + CBC_ELS_POS K) AND (CBC_RING_BUFFER_SIZE K - 1);
                els = unat (ring_buf (ring ioc) ! els_pos);
                ext = (of_nat (drop_bit (CBC_EXT_OFFSET K) els AND CBC_EXT_MASK K) :: u8);
                len = (of_nat (drop_bit (CBC_LEN_OFFSET K) els AND CBC_LEN_MASK K) :: u8);
                seq = (of_nat (drop_bit (CBC_SEQ_OFFSET K) els AND CBC_SEQ_MASK K) :: u8);
                len = (len + 1) * 4;
                frame_len = uint len + int (CBC_LINK_HDR_SIZE K) + int (CBC_ADDR_HDR_SIZE K)
            in if frame_len > int (CBC_MAX_FRAME_SIZE K)
               then Continue (ioc\<lparr>ring := cbc_ring_skips K (ring ioc) 1\<rparr>)
               else if avalids < frame_len
               then Continue (ioc\<lparr>remains := frame_len\<rparr>)
               else
                 (let chksum_pos = (ring_head (ring ioc) + nat frame_len - 1) AND
                                   (CBC_RING_BUFFER_SIZE K - 1);
                      checksum = ring_buf (ring ioc) ! chksum_pos
                  in if cbc_verify_chksum K (ring ioc) (nat (frame_len - 1)) checksum \<noteq> 0
                     then Continue (ioc\<lparr>ring := cbc_ring_skips K (ring ioc) 1\<rparr>)
                     else
                       (let ioc = ioc\<lparr>rx_seq_counter :=
                                    (rx_seq_counter ioc + 1) AND int (CBC_SEQ_MASK K)\<rparr>;
                            ioc = (if rx_seq_counter ioc \<noteq> uint seq
                                   then ioc\<lparr>dev_console := dev_console ioc @
                                               [WPRINTF ''ioc rx sequence check falied''],
                                            rx_seq_counter := uint seq\<rparr>
                                   else ioc);
                            ioc = ioc_build_request K ioc frame_len (uint len)
                        in Continue (ioc\<lparr>ring := cbc_ring_skips K (ring ioc) (nat frame_len)\<rparr>))))))"

partial_function (option) cbc_unpack_link :: "cbc_consts \<Rightarrow> ioc_dev \<Rightarrow> ioc_dev option" where
  "cbc_unpack_link K ioc =
     (case cbc_unpack_body K ioc of
        Break ioc' \<Rightarrow> Some ioc'
      | Continue ioc' \<Rightarrow> cbc_unpack_link K ioc')"

declare cbc_unpack_link.simps [code]

subsection \<open>Notions used to state the properties\<close>

text \<open>
  A ring is well formed when both cursors are inside the array. Its unread bytes are
  the \<open>avalids\<close> bytes from \<open>head\<close> on, in ring order, read the way
  \<open>cbc_verify_chksum\<close> and the deframer index the array.
\<close>

definition ring_ok :: "cbc_consts \<Rightarrow> cbc_ring \<Rightarrow> bool" where
  "ring_ok K r \<longleftrightarrow>
     ring_head r < CBC_RING_BUFFER_SIZE K \<and> ring_tail r < CBC_RING_BUFFER_SIZE K \<and>
     length (ring_buf r) = CBC_RING_BUFFER_SIZE K"

definition ring_contents :: "cbc_consts \<Rightarrow> cbc_ring \<Rightarrow> u8 list" where
  "ring_contents K r =
     map (\<lambda>i. ring_buf r ! ((ring_head r + i) AND (CBC_RING_BUFFER_SIZE K - 1)))
       [0..<nat (ring_avalids K r)]"

text \<open>
  An interleaving of appends and skips, run on the ring; the result collects the
  return codes of the appends and what they printed.
\<close>

datatype ring_op = Append "u8 list" | Skips nat

fun ring_run :: "cbc_consts \<Rightarrow> ring_op list \<Rightarrow> cbc_ring \<Rightarrow> int list \<times> log_event list \<times> cbc_ring" where
  "ring_run K [] r = ([], [], r)"
| "ring_run K (Append bs # ops) r =
     (case cbc_copy_to_ring K bs r of (rc, r', lg) \<Rightarrow>
        (case ring_run K ops r' of (rcs, lgs, r'') \<Rightarrow> (rc # rcs, lg @ lgs, r'')))"
| "ring_run K (Skips n # ops) r = ring_run K ops (cbc_ring_skips K r n)"

text \<open>Every skip of the interleaving drops at most the bytes that are in the ring.\<close>

fun skips_within :: "cbc_consts \<Rightarrow> ring_op list \<Rightarrow> cbc_ring \<Rightarrow> bool" where
  "skips_within K [] r = True"
| "skips_within K (Append bs # ops) r =
     skips_within K ops (fst (snd (cbc_copy_to_ring K bs r)))"
| "skips_within K (Skips n # ops) r =
     (int n \<le> ring_avalids K r \<and> skips_within K ops (cbc_ring_skips K r n))"

text \<open>
  The sum of the specification's checksum, \<open>\<Sum> (0x100 - byte_i)\<close>, and the \<open>n\<close>
  bytes of the ring from \<open>head\<close> on.
\<close>

definition byte_sum :: "u8 list \<Rightarrow> nat" where
  "byte_sum data = (\<Sum>b\<leftarrow>data. 0x100 - unat b)"

definition ring_bytes :: "cbc_consts \<Rightarrow> cbc_ring \<Rightarrow> nat \<Rightarrow> u8 list" where
  "ring_bytes K r n =
     map (\<lambda>i. ring_buf r ! ((ring_head r + i) AND (CBC_RING_BUFFER_SIZE K - 1))) [0..<n]"

text \<open>
  What one pass of the deframer reads at the head of the ring: the header byte at
  \<open>CBC_ELS_POS\<close>, the locals \<open>len\<close> (after scaling), \<open>seq\<close> and
  \<open>frame_len\<close>, and the byte at \<open>chksum_pos\<close>; and the two ways a pass over a
  complete frame ends: one byte dropped, or the frame accepted (sequence check,
  \<open>ioc_build_request\<close>, \<open>frame_len\<close> bytes dropped).
\<close>

definition els_at :: "cbc_consts \<Rightarrow> cbc_ring \<Rightarrow> nat" where
  "els_at K r =
     unat (ring_buf r ! ((ring_head r + CBC_ELS_POS K) AND (CBC_RING_BUFFER_SIZE K - 1)))"

definition len_at :: "cbc_consts \<Rightarrow> cbc_ring \<Rightarrow> u8" where
  "len_at K r = (of_nat (drop_bit (CBC_LEN_OFFSET K) (els_at K r) AND CBC_LEN_MASK K) + 1) * 4"

definition seq_at :: "cbc_consts \<Rightarrow> cbc_ring \<Rightarrow> u8" where
  "seq_at K r = of_nat (drop_bit (CBC_SEQ_OFFSET K) (els_at K r) AND CBC_SEQ_MASK K)"

definition frame_len_at :: "cbc_consts \<Rightarrow> cbc_ring \<Rightarrow> int" where
  "frame_len_at K r =
     uint (len_at K r) + int (CBC_LINK_HDR_SIZE K) + int (CBC_ADDR_HDR_SIZE K)"

definition trailing_byte :: "cbc_consts \<Rightarrow> cbc_ring \<Rightarrow> u8" where
  "trailing_byte K r =
     ring_buf r ! ((ring_head r + nat (frame_len_at K r) - 1) AND (CBC_RING_BUFFER_SIZE K - 1))"

definition drop_one :: "cbc_consts \<Rightarrow> ioc_dev \<Rightarrow> ioc_dev" where
  "drop_one K ioc = ioc\<lparr>remains := 0, ring := cbc_ring_skips K (ring ioc) 1\<rparr>"

definition accept_frame :: "cbc_consts \<Rightarrow> ioc_dev \<Rightarrow> ioc_dev" where
  "accept_frame K ioc =
     (let r = ring ioc;
          next_seq = (rx_seq_counter ioc + 1) AND int (CBC_SEQ_MASK K);
          ioc = ioc\<lparr>remains := 0\<rparr>;
          ioc = (if next_seq \<noteq> uint (seq_at K r)
                 then ioc\<lparr>dev_console := dev_console ioc @
                             [WPRINTF ''ioc rx sequence check falied''],
                          rx_seq_counter := uint (seq_at K r)\<rparr>
                 else ioc\<lparr>rx_seq_counter := next_seq\<rparr>);
          ioc = ioc_build_request K ioc (frame_len_at K r) (uint (len_at K r))
      in ioc\<lparr>ring := cbc_ring_skips K r (nat (frame_len_at K r))\<rparr>)"

text \<open>
  The state a heartbeat command stands for, and the request \<open>cbc_update_heartbeat\<close>
  synthesizes on a transition: routed to the tx queue, of SoC-update type, the new
  state in the first byte of the buffer and in \<open>hb_state\<close>.
\<close>

definition hb_stat :: "cbc_consts \<Rightarrow> u8 \<Rightarrow> u8" where
  "hb_stat K cmd =
     (if unat cmd = CBC_HB_ACTIVE K \<or> unat cmd = CBC_HB_STANDBY K \<or> unat cmd = CBC_HB_INITIAL K
      then 1 else 0)"

definition soc_update_request :: "cbc_consts \<Rightarrow> cbc_tx \<Rightarrow> u8 \<Rightarrow> cbc_tx" where
  "soc_update_request K w stat =
     w\<lparr>hb_state := stat, qtype := CBC_QUEUE_T_TX K,
       req := (req w)\<lparr>rtype := CBC_REQ_T_SOC K, req_buf := (req_buf (req w))[0 := stat]\<rparr>\<rparr>"

text \<open>
  The request \<open>cbc_update_wakeup_reason\<close> hands to \<open>cbc_send_pkt\<close> for the reason
  \<open>rsn\<close>: the reason stored, its three low bytes in the payload, low byte first, the
  wakeup-reason command in the service byte, the lifecycle channel, \<open>srv_len\<close> 4 and
  \<open>link_len\<close> 0.
\<close>

definition wakeup_request :: "cbc_consts \<Rightarrow> cbc_tx \<Rightarrow> u32 \<Rightarrow> cbc_tx" where
  "wakeup_request K w rsn =
     w\<lparr>reason := rsn,
       req := (req w)\<lparr>req_id := IOC_NATIVE_LFCC K,
                req_buf := (req_buf (req w))
                  [CBC_PAYLOAD_POS K := ucast rsn,
                   CBC_PAYLOAD_POS K + 1 := ucast (drop_bit 8 rsn),
                   CBC_PAYLOAD_POS K + 2 := ucast (drop_bit 16 rsn),
                   CBC_SRV_POS K := of_nat (CBC_SC_WK_RSN K)],
                srv_len := 4, link_len := 0\<rparr>\<rparr>"

text \<open>The state of the forwarding loop with the configuration replaced.\<close>

definition with_cfg :: "cbc_config \<Rightarrow> cbc_tx \<times> 'a \<Rightarrow> cbc_tx \<times> 'a" where
  "with_cfg c st = (case st of (w, rest) \<Rightarrow> (w\<lparr>cfg := c\<rparr>, rest))"

text \<open>
  The ids listed by a multi-id invalidation payload (the second payload byte is their
  number, the ids follow, two bytes each), and the tables after each listed id has
  been disabled in turn.
\<close>

definition inval_ids :: "cbc_consts \<Rightarrow> cbc_tx \<Rightarrow> u16 list" where
  "inval_ids K w =
     map (\<lambda>i. payload_id K w (i * 2 + 2)) [0..<unat (get_buf w (CBC_PAYLOAD_POS K + 1))]"

definition invalidated_signals :: "cbc_consts \<Rightarrow> cbc_tx \<Rightarrow> cbc_signal list" where
  "invalidated_signals K w =
     fold (\<lambda>i tbl. cbc_disable_signal K i tbl (cbc_sig_num (cfg w))) (inval_ids K w)
       (cbc_sig_tbl (cfg w))"

definition invalidated_groups :: "cbc_consts \<Rightarrow> cbc_tx \<Rightarrow> cbc_group list" where
  "invalidated_groups K w =
     fold (\<lambda>i tbl. cbc_disable_signal_group K i tbl (cbc_grp_num (cfg w))) (inval_ids K w)
       (cbc_grp_tbl (cfg w))"

text \<open>
  Frames as byte sequences. The frame length a header announces (the length field of
  the byte at \<open>CBC_ELS_POS\<close>, scaled as the deframer scales it, plus the header
  sizes), the checksum condition on the announced length, a complete valid frame, and
  a byte sequence on whose first byte frame detection fails: the first byte is not
  the start-of-frame value, or the announced length is over the maximum, or the
  announced length is available and the checksum does not match.
\<close>

definition frame_len_of :: "cbc_consts \<Rightarrow> u8 list \<Rightarrow> int" where
  "frame_len_of K bytes =
     uint ((of_nat (drop_bit (CBC_LEN_OFFSET K) (unat (bytes ! CBC_ELS_POS K)) AND CBC_LEN_MASK K) + 1) * 4 :: u8)
       + int (CBC_LINK_HDR_SIZE K) + int (CBC_ADDR_HDR_SIZE K)"

definition chksum_ok :: "cbc_consts \<Rightarrow> u8 list \<Rightarrow> bool" where
  "chksum_ok K bytes \<longleftrightarrow>
     byte_sum (take (nat (frame_len_of K bytes - 1)) bytes) mod 256 =
       unat (bytes ! (nat (frame_len_of K bytes) - 1))"

definition valid_frame :: "cbc_consts \<Rightarrow> u8 list \<Rightarrow> bool" where
  "valid_frame K fr \<longleftrightarrow>
     unat (fr ! 0) = CBC_SOF_VALUE K \<and> CBC_ELS_POS K < length fr \<and>
     frame_len_of K fr = int (length fr) \<and>
     CBC_MIN_FRAME_SIZE K \<le> length fr \<and> length fr \<le> CBC_MAX_FRAME_SIZE K \<and>
     chksum_ok K fr"

definition detect_fails :: "cbc_consts \<Rightarrow> u8 list \<Rightarrow> bool" where
  "detect_fails K bytes \<longleftrightarrow>
     unat (bytes ! 0) \<noteq> CBC_SOF_VALUE K \<or>
     frame_len_of K bytes > int (CBC_MAX_FRAME_SIZE K) \<or>
     (frame_len_of K bytes \<le> int (length bytes) \<and> \<not> chksum_ok K bytes)"

text \<open>
  The frame layout the packing and the deframing code agree on, as conditions on the
  constants of ioc.h: the byte positions of the frame header, the bit fields of the
  extension/length/sequence byte and of the address byte, the length unit and padding
  granularity of four bytes, the sizes of the headers and of the checksum, and the
  bounds that let every packed frame fit the request buffer and the ring.
\<close>

definition frame_layout :: "cbc_consts \<Rightarrow> bool" where
  "frame_layout K \<longleftrightarrow>
     CBC_SOF_POS K = 0 \<and> CBC_ELS_POS K = 1 \<and> CBC_ADDR_POS K = 2 \<and> CBC_SRV_POS K = 3 \<and>
     CBC_PAYLOAD_POS K = 4 \<and>
     CBC_EXT_OFFSET K = 7 \<and> CBC_EXT_MASK K = 0x01 \<and>
     CBC_LEN_OFFSET K = 2 \<and> CBC_LEN_MASK K = 0x1F \<and>
     CBC_SEQ_OFFSET K = 0 \<and> CBC_SEQ_MASK K = 0x03 \<and>
     CBC_MUX_OFFSET K = 3 \<and> CBC_MUX_MASK K = 0x1F \<and>
     CBC_PRIO_OFFSET K = 0 \<and> CBC_PRIO_MASK K = 0x07 \<and>
     CBC_LEN_UNIT K = 4 \<and> CBC_GRANULARITY K = 4 \<and>
     CBC_LINK_HDR_SIZE K = 3 \<and> CBC_ADDR_HDR_SIZE K = 1 \<and> CBC_CHKSUM_SIZE K = 1 \<and>
     CBC_SOF_VALUE K < 256 \<and>
     0 < CBC_MIN_FRAME_SIZE K \<and> CBC_MIN_FRAME_SIZE K \<le> 8 \<and>
     CBC_MAX_SERVICE_SIZE K \<le> 128 \<and>
     CBC_MAX_SERVICE_SIZE K + 7 \<le> CBC_MAX_FRAME_SIZE K \<and>
     CBC_MAX_FRAME_SIZE K < CBC_RING_BUFFER_SIZE K"

text \<open>
  The length of the frame packed for a service part of \<open>n\<close> bytes: address header,
  service bytes and checksum padded to a multiple of four, after the two leading bytes
  of the link header.
\<close>

definition padded_len :: "nat \<Rightarrow> nat" where
  "padded_len n = 4 * ((n + 3) div 4) + 4"

text \<open>
  The extension/length/sequence byte written by \<open>cbc_pack_link\<close> for a service part
  of \<open>n\<close> bytes and the sequence counter \<open>sq\<close>.
\<close>

definition els_byte :: "cbc_consts \<Rightarrow> nat \<Rightarrow> nat \<Rightarrow> u8" where
  "els_byte K n sq =
     (of_nat (push_bit 7 (CBC_EXT_VALUE K AND 1)) OR of_int (push_bit 2 (int ((n - 1) div 4)))) OR
     of_nat (push_bit 0 (sq AND 3))"

text \<open>The address byte written by \<open>cbc_pack_address\<close> for the channel id \<open>c\<close>.\<close>

definition addr_byte :: "cbc_consts \<Rightarrow> nat \<Rightarrow> u8" where
  "addr_byte K c =
     of_nat (push_bit 3 c) OR
     of_nat (push_bit 0 (unat
       (if c = IOC_NATIVE_PMT K \<or> c = IOC_NATIVE_LFCC K \<or> c = IOC_NATIVE_SIGNAL K \<or> c = IOC_NATIVE_DLT K
        then of_nat (CBC_PRIO_HIGH K)
        else if c = IOC_NATIVE_DIAG K then of_nat (CBC_PRIO_LOW K)
        else of_nat (CBC_PRIO_MEDIUM K) :: u8) AND 7))"

text \<open>
  The bytes \<open>cbc_send_pkt\<close> hands to the transmit primitive for a request that is
  not yet framed: the first \<open>link_len\<close> bytes of the buffer after
  \<open>cbc_pack_address\<close> and \<open>cbc_pack_link\<close>.
\<close>

definition sent_frame :: "cbc_consts \<Rightarrow> cbc_tx \<Rightarrow> u8 list" where
  "sent_frame K w =
     (let w = cbc_pack_link K (cbc_pack_address K w)
      in take (nat (link_len (req w))) (req_buf (req w)))"

text \<open>
  The request \<open>cbc_unpack_link\<close> builds for an accepted frame \<open>fr\<close>: it passes
  the frame length and the frame length less the link and address header sizes to
  \<open>ioc_build_request\<close>.
\<close>

definition decoded_request :: "cbc_consts \<Rightarrow> u8 list \<Rightarrow> cbc_request" where
  "decoded_request K fr =
     \<lparr>srv_len = int (length fr) - int (CBC_LINK_HDR_SIZE K) - int (CBC_ADDR_HDR_SIZE K),
      link_len = int (length fr), req_id = 0, rtype = CBC_REQ_T_PROT K, req_buf = fr\<rparr>"

text \<open>
  The ring of the specification: a queue of unread bytes of capacity \<open>C\<close>. An append
  takes bytes while fewer than \<open>C - 1\<close> are held and reports an overflow (\<open>-1\<close>, with
  the message) when a byte is left over; a skip drops bytes from the front.
\<close>

fun queue_run :: "nat \<Rightarrow> ring_op list \<Rightarrow> u8 list \<Rightarrow> int list \<times> log_event list \<times> u8 list" where
  "queue_run C [] q = ([], [], q)"
| "queue_run C (Append bs # ops) q =
     (let free = C - 1 - length q in
      case queue_run C ops (q @ take free bs) of (rcs, lgs, q') \<Rightarrow>
        if length bs \<le> free then (0 # rcs, lgs, q')
        else (- 1 # rcs, WPRINTF ''ioc cbc ring buffer is full!!'' # lgs, q'))"
| "queue_run C (Skips n # ops) q = queue_run C ops (drop n q)"

text \<open>
  An instance of the constants, used to run the definitions on concrete inputs: a ring
  of 256 bytes, frames of 8 to 96 bytes with at most 64 service bytes, the link header
  byte holding extension (bit 7), length (bits 2 to 6) and sequence (bits 0 and 1),
  the address byte holding the channel (bits 3 to 7) and the priority (bits 0 to 2).
\<close>

definition ioc_h :: cbc_consts where
  "ioc_h = \<lparr>
     CBC_RING_BUFFER_SIZE = 256, CBC_MIN_FRAME_SIZE = 8, CBC_MAX_FRAME_SIZE = 96,
      CBC_MAX_SERVICE_SIZE = 64, CBC_SOF_VALUE = 0x05, CBC_EXT_VALUE = 0, CBC_SOF_POS = 0,
      CBC_ELS_POS = 1, CBC_ADDR_POS = 2, CBC_SRV_POS = 3, CBC_PAYLOAD_POS = 4,
      CBC_EXT_OFFSET = 7, CBC_EXT_MASK = 0x01, CBC_LEN_OFFSET = 2, CBC_LEN_MASK = 0x1F,
      CBC_SEQ_OFFSET = 0, CBC_SEQ_MASK = 0x03, CBC_MUX_OFFSET = 3, CBC_MUX_MASK = 0x1F,
      CBC_PRIO_OFFSET = 0, CBC_PRIO_MASK = 0x07, CBC_PRIO_HIGH = 6, CBC_PRIO_MEDIUM = 3,
      CBC_PRIO_LOW = 2, CBC_LEN_UNIT = 4, CBC_GRANULARITY = 4, CBC_LINK_HDR_SIZE = 3,
      CBC_ADDR_HDR_SIZE = 1, CBC_SRV_HDR_SIZE = 1, CBC_CHKSUM_SIZE = 1, IOC_NATIVE_PMT = 0,
      IOC_NATIVE_LFCC = 1, IOC_NATIVE_SIGNAL = 2, IOC_NATIVE_DIAG = 4, IOC_NATIVE_DLT = 5,
      IOC_NATIVE_RAW0 = 7, IOC_NATIVE_RAW11 = 18, IOC_VIRTUAL_UART = 19, CBC_SC_WK_RSN = 1,
      CBC_SC_HB = 2, CBC_HB_ACTIVE = 1, CBC_HB_STANDBY = 4, CBC_HB_INITIAL = 3,
      CBC_WK_RSN_SOC = 0x800000, CBC_WK_RSN_ALL = 0xFFFFFF, CBC_SD_SINGLE_SIGNAL = 1,
      CBC_SD_MULTI_SIGNAL = 2, CBC_SD_GROUP_SIGNAL = 3, CBC_SD_INVAL_SSIG = 4,
      CBC_SD_INVAL_MSIG = 5, CBC_SD_INVAL_SGRP = 6, CBC_SD_INVAL_MGRP = 7,
      CBC_SD_OPEN_CHANNEL = 0xFD, CBC_SD_RESET_CHANNEL = 0xFE, CBC_SD_CLOSE_CHANNEL = 0xFF,
      CBC_REQ_T_PROT = 0, CBC_REQ_T_SOC = 1, CBC_QUEUE_T_TX = 1, CBC_INACTIVE = 0,
      CBC_INVAL_T_SIGNAL = 0, CBC_INVAL_T_GROUP = 1 \<rparr>"

subsection \<open>Concrete inputs\<close>

text \<open>
  A ring holding 254 bytes, one short of full, and an interleaving on it: the first
  append overflows after one byte.
\<close>

definition ring0 :: cbc_ring where
  "ring0 = \<lparr>ring_head = 3, ring_tail = 1, ring_buf = replicate 256 0\<rparr>"

definition ops0 :: "ring_op list" where
  "ops0 = [Append [1, 2, 3], Skips 250, Append [4, 5], Skips 6]"

text \<open>
  A device whose ring holds one 8-byte frame with a wrong trailing byte (the sum of
  the first seven bytes is 0xE9 modulo 256).
\<close>

definition ioc1 :: ioc_dev where
  "ioc1 = \<lparr>ring = \<lparr>ring_head = 0, ring_tail = 8,
                    ring_buf = [0x05, 0x00, 0x08, 0x01, 0x02, 0x03, 0x04, 0xEE] @ replicate 248 0\<rparr>,
            remains = 0, rx_seq_counter = 0, rx_queue = [], dev_console = []\<rparr>"

text \<open>
  A configuration with three signals and two groups, and a packet context in its
  initial state (everything zero, the heartbeat inactive) whose request buffer of 96
  bytes starts with the given bytes; the transmit primitive reports success.
\<close>

definition cfg0 :: cbc_config where
  "cfg0 = \<lparr>cbc_sig_num = 3, cbc_grp_num = 2, wlist_sig_num = 0, wlist_grp_num = 0,
            cbc_sig_tbl = [\<lparr>sig_id = 0x0101, sig_len = 8, sig_flag = 1\<rparr>,
                           \<lparr>sig_id = 0x0202, sig_len = 10, sig_flag = 1\<rparr>,
                           \<lparr>sig_id = 0x0303, sig_len = 3, sig_flag = 1\<rparr>],
            cbc_grp_tbl = [\<lparr>grp_id = 0x0011, grp_flag = 1\<rparr>, \<lparr>grp_id = 0x0022, grp_flag = 1\<rparr>],
            wlist_sig_tbl = [], wlist_grp_tbl = []\<rparr>"

definition tx0 :: "u8 list \<Rightarrow> cbc_tx" where
  "tx0 bytes =
     \<lparr>soc_active = 0, hb_state = 0, reason = 0, boot_reason = 0,
      req = \<lparr>srv_len = 0, link_len = 0, req_id = 0, rtype = 0,
             req_buf = bytes @ replicate (96 - length bytes) 0\<rparr>,
      cfg = cfg0, qtype = 0,
      tx_seq_counter = 0, is_active = False, xmit_log = [], xmit_result = (\<lambda>ch data. 0),
      console = []\<rparr>"


text \<open>
  A multi-signal request received on the signal channel (its \<open>link_len\<close> is not 0,
  so it is forwarded to the native channel) with one entry: the 8-bit signal 0x0101
  with the value 0xAA; and the same after the signal 0x0101 has been invalidated.
\<close>

definition w5 :: cbc_tx where
  "w5 = (let w = tx0 [0x05, 0x00, 0x16, 0x02, 0x01, 0x01, 0x01, 0xAA]
         in w\<lparr>req := (req w)\<lparr>srv_len := 4, link_len := 8, req_id := 2\<rparr>\<rparr>)"

definition w5_invalidated :: cbc_tx where
  "w5_invalidated =
     w5\<lparr>cfg := (cfg w5)\<lparr>cbc_sig_tbl :=
          cbc_disable_signal ioc_h 0x0101 (cbc_sig_tbl (cfg w5)) (cbc_sig_num (cfg w5))\<rparr>\<rparr>"

text \<open>
  Multi-id invalidation requests: one announcing 31 ids, the first being 0x0101 (so
  that \<open>31 * 2 + 2\<close> is the maximum service size 64), one listing the signals 0x0101
  and 0x0303, one listing the group 0x0022.
\<close>

definition w9_full :: cbc_tx where
  "w9_full = tx0 [0x00, 0x00, 0x00, 0x05, 0x00, 31, 0x01, 0x01]"

definition w9_sig :: cbc_tx where
  "w9_sig = tx0 [0x00, 0x00, 0x00, 0x05, 0x00, 2, 0x01, 0x01, 0x03, 0x03]"

definition w9_grp :: cbc_tx where
  "w9_grp = tx0 [0x00, 0x00, 0x00, 0x07, 0x00, 1, 0x22, 0x00]"

text \<open>
  A device whose ring holds, wrapped around the end of the array, the byte 0x00
  followed by the valid 8-byte frame 05 00 08 01 02 03 04 E9.
\<close>

definition ioc2 :: ioc_dev where
  "ioc2 = \<lparr>ring = \<lparr>ring_head = 250, ring_tail = 3,
                    ring_buf = [0x03, 0x04, 0xE9] @ replicate 247 0 @
                               [0x00, 0x05, 0x00, 0x08, 0x01, 0x02]\<rparr>,
            remains = 0, rx_seq_counter = 0, rx_queue = [], dev_console = []\<rparr>"

text \<open>
  An unframed request on channel 2 with the command byte 0x02 and the one payload byte
  0xAA (service length 2); the same request with the channel id 32, which does not fit
  the five bits of the multiplexer field; and a deframer with an empty ring.
\<close>

definition w1 :: cbc_tx where
  "w1 = (let w = tx0 [0x00, 0x00, 0x00, 0x02, 0xAA]
         in w\<lparr>req := (req w)\<lparr>srv_len := 2, link_len := 0, req_id := 2\<rparr>\<rparr>)"

definition w1_far :: cbc_tx where
  "w1_far = w1\<lparr>req := (req w1)\<lparr>req_id := 32\<rparr>\<rparr>"

definition ioc0 :: ioc_dev where
  "ioc0 = \<lparr>ring = \<lparr>ring_head = 0, ring_tail = 0, ring_buf = replicate 256 0\<rparr>,
            remains = 0, rx_seq_counter = 0, rx_queue = [], dev_console = []\<rparr>"


section \<open>Properties\<close>

subsection \<open>Ring arithmetic\<close>

lemma and_size_mod: "CBC_RING_BUFFER_SIZE K = 2 ^ k \<Longrightarrow> (x::nat) AND (CBC_RING_BUFFER_SIZE K - 1) = x mod CBC_RING_BUFFER_SIZE K"
  by (metis mask_eq_exp_minus_1 take_bit_eq_mask take_bit_eq_mod)

lemma and_size_mod_Suc: "CBC_RING_BUFFER_SIZE K = 2 ^ k \<Longrightarrow> (x::nat) AND (CBC_RING_BUFFER_SIZE K - Suc 0) = x mod CBC_RING_BUFFER_SIZE K"
  using and_size_mod [of K k x] by simp

lemma avalids_if:
  "ring_avalids K r = (if ring_head r \<le> ring_tail r then int (ring_tail r - ring_head r)
      else int (CBC_RING_BUFFER_SIZE K + ring_tail r) - int (ring_head r))"
  by (simp add: ring_avalids_def Let_def of_nat_diff)

lemma avalids_bounds:
  "ring_ok K r \<Longrightarrow> 0 \<le> ring_avalids K r \<and> ring_avalids K r \<le> int (CBC_RING_BUFFER_SIZE K) - 1"
  by (auto simp: avalids_if ring_ok_def)

lemma mod_wrap: "(x::nat) < 2 * N \<Longrightarrow> x mod N = (if x < N then x else x - N)"
  by (auto simp: mod_if)

lemma push_avalids:
  assumes "ring_ok K r" "(ring_tail r + 1) mod CBC_RING_BUFFER_SIZE K \<noteq> ring_head r"
  shows "ring_avalids K (r\<lparr>ring_buf := bf, ring_tail := (ring_tail r + 1) mod CBC_RING_BUFFER_SIZE K\<rparr>) = ring_avalids K r + 1"
  using assms by (auto simp: avalids_if ring_ok_def mod_wrap split: if_splits)

lemma full_avalids:
  assumes "ring_ok K r" 
  shows "(ring_tail r + 1) mod CBC_RING_BUFFER_SIZE K = ring_head r \<longleftrightarrow> ring_avalids K r = int (CBC_RING_BUFFER_SIZE K) - 1"
  using assms by (auto simp: avalids_if ring_ok_def mod_wrap split: if_splits)

lemma tail_pos:
  assumes "ring_ok K r" 
  shows "(ring_head r + nat (ring_avalids K r)) mod CBC_RING_BUFFER_SIZE K = ring_tail r"
  using assms by (auto simp: avalids_if ring_ok_def mod_wrap nat_diff_distrib split: if_splits)

lemma before_tail:
  assumes "ring_ok K r" "i < nat (ring_avalids K r)"
  shows "(ring_head r + i) mod CBC_RING_BUFFER_SIZE K \<noteq> ring_tail r"
  using assms by (auto simp: avalids_if ring_ok_def mod_wrap nat_diff_distrib split: if_splits)

lemma push_contents:
  assumes ok: "ring_ok K r" and pw: "CBC_RING_BUFFER_SIZE K = 2 ^ k"
    and nf: "(ring_tail r + 1) mod CBC_RING_BUFFER_SIZE K \<noteq> ring_head r"
  shows "ring_contents K (r\<lparr>ring_buf := (ring_buf r)[ring_tail r := b],
            ring_tail := (ring_tail r + 1) mod CBC_RING_BUFFER_SIZE K\<rparr>) = ring_contents K r @ [b]"
proof -
  let ?N = "CBC_RING_BUFFER_SIZE K"
  let ?n = "nat (ring_avalids K r)"
  let ?r' = "r\<lparr>ring_buf := (ring_buf r)[ring_tail r := b], ring_tail := (ring_tail r + 1) mod ?N\<rparr>"
  have n': "nat (ring_avalids K ?r') = Suc ?n"
    using push_avalids [OF ok nf, of "(ring_buf r)[ring_tail r := b]"] avalids_bounds [OF ok] by linarith
  have old: "(ring_buf r)[ring_tail r := b] ! ((ring_head r + i) mod ?N) = ring_buf r ! ((ring_head r + i) mod ?N)"
    if "i < ?n" for i
    using before_tail [OF ok that] by simp
  have new: "(ring_buf r)[ring_tail r := b] ! ((ring_head r + ?n) mod ?N) = b"
    using tail_pos [OF ok] ok by (simp add: ring_ok_def)
  show ?thesis
    unfolding ring_contents_def n' by (simp add: and_size_mod_Suc [OF pw] old new)
qed

lemma copy_to_ring_contents:
  assumes pw: "CBC_RING_BUFFER_SIZE K = 2 ^ k"
  shows "ring_ok K r \<Longrightarrow>
    (case cbc_copy_to_ring K bs r of (rc, r', lg) \<Rightarrow>
       ring_ok K r' \<and> ring_head r' = ring_head r \<and>
       ring_contents K r' = ring_contents K r @ take (CBC_RING_BUFFER_SIZE K - 1 - length (ring_contents K r)) bs \<and>
       rc = (if length bs \<le> CBC_RING_BUFFER_SIZE K - 1 - length (ring_contents K r) then 0 else - 1) \<and>
       lg = (if rc = 0 then [] else [WPRINTF ''ioc cbc ring buffer is full!!'']))"
proof (induction bs arbitrary: r)
  case Nil
  then show ?case by simp
next
  case (Cons b bs)
  let ?N = "CBC_RING_BUFFER_SIZE K"
  let ?pos = "(ring_tail r + 1) mod ?N"
  have len: "length (ring_contents K r) = nat (ring_avalids K r)" by (simp add: ring_contents_def)
  have Npos: "0 < ?N" using pw by simp
  show ?case
  proof (cases "?pos = ring_head r")
    case True
    then have "ring_avalids K r = int ?N - 1" using full_avalids [OF Cons.prems] by simp
    then have "?N - 1 - length (ring_contents K r) = 0" by (simp add: len)
    with True Cons.prems show ?thesis by (simp add: and_size_mod_Suc [OF pw])
  next
    case False
    define r1 where "r1 = r\<lparr>ring_buf := (ring_buf r)[ring_tail r := b], ring_tail := ?pos\<rparr>"
    have ok': "ring_ok K r1" using Cons.prems Npos by (simp add: ring_ok_def r1_def)
    have h1: "ring_head r1 = ring_head r" by (simp add: r1_def)
    have c': "ring_contents K r1 = ring_contents K r @ [b]"
      unfolding r1_def by (rule push_contents [OF Cons.prems pw False])
    have lt: "ring_avalids K r < int ?N - 1"
      using False full_avalids [OF Cons.prems] avalids_bounds [OF Cons.prems] by linarith
    then obtain m where m: "?N - 1 - length (ring_contents K r) = Suc m"
      using avalids_bounds [OF Cons.prems] by (cases "?N - 1 - length (ring_contents K r)") (auto simp: len)
    then have m': "?N - 1 - length (ring_contents K r1) = m" unfolding c' by simp
    have step: "cbc_copy_to_ring K (b # bs) r = cbc_copy_to_ring K bs r1"
      using False by (simp add: and_size_mod_Suc [OF pw] r1_def)
    have m'': "?N - Suc (Suc (length (ring_contents K r))) = m" using m by simp
    show ?thesis
      using Cons.IH [OF ok'] m unfolding step h1 c' by (auto simp: m'' split: prod.splits)
  qed
qed

lemma skips_contents:
  assumes ok: "ring_ok K r" and pw: "CBC_RING_BUFFER_SIZE K = 2 ^ k"
    and le: "int n \<le> ring_avalids K r"
  shows "ring_ok K (cbc_ring_skips K r n) \<and>
         ring_avalids K (cbc_ring_skips K r n) = ring_avalids K r - int n \<and>
         ring_contents K (cbc_ring_skips K r n) = drop n (ring_contents K r)"
proof -
  let ?N = "CBC_RING_BUFFER_SIZE K"
  let ?r' = "cbc_ring_skips K r n"
  have Npos: "0 < ?N" using pw by simp
  have hd': "ring_head ?r' = (ring_head r + n) mod ?N" "ring_tail ?r' = ring_tail r" "ring_buf ?r' = ring_buf r"
    by (simp_all add: cbc_ring_skips_def and_size_mod_Suc [OF pw])
  have ok': "ring_ok K ?r'" using ok Npos by (simp add: ring_ok_def hd')
  have nN: "n < ?N" using le avalids_bounds [OF ok] by linarith
  have av: "ring_avalids K ?r' = ring_avalids K r - int n"
    using ok le nN unfolding avalids_if hd' ring_ok_def
    by (auto simp: mod_wrap of_nat_diff split: if_splits)
  have nd: "nat (ring_avalids K r - int n) = nat (ring_avalids K r) - n" using le by linarith
  have "ring_contents K ?r' = map (\<lambda>i. ring_buf r ! ((ring_head r + (n + i)) mod ?N)) [0..<nat (ring_avalids K r) - n]"
    unfolding ring_contents_def av hd'
    by (simp add: and_size_mod_Suc [OF pw] and_size_mod [OF pw] mod_add_left_eq add.assoc nd)
  also have "\<dots> = drop n (ring_contents K r)"
    unfolding ring_contents_def drop_map drop_upt
    by (rule nth_equalityI) (simp_all add: and_size_mod_Suc [OF pw] and_size_mod [OF pw] ac_simps)
  finally show ?thesis using ok' av by simp
qed
lemma avalids_mod:
  assumes "ring_ok K r"
  shows "ring_avalids K r = (int (ring_tail r) - int (ring_head r)) mod int (CBC_RING_BUFFER_SIZE K)"
proof (cases "ring_head r \<le> ring_tail r")
  case True
  with assms show ?thesis by (simp add: ring_avalids_def ring_ok_def mod_pos_pos_trivial)
next
  case False
  let ?d = "int (ring_tail r) - int (ring_head r)"
  let ?N = "int (CBC_RING_BUFFER_SIZE K)"
  have "?d mod ?N = (?d + ?N) mod ?N" by simp
  also have "\<dots> = ?d + ?N" using False assms by (intro mod_pos_pos_trivial) (simp_all add: ring_ok_def)
  finally show ?thesis using False by (simp add: ring_avalids_def)
qed


subsection \<open>The ring buffer invariant\<close>

text \<open>
  Claim C4. On a ring whose capacity is a power of two, every interleaving of
  \<open>cbc_copy_to_ring\<close> appends and \<open>cbc_ring_skips\<close> calls in which each skip drops at
  most the bytes held leaves the ring well formed with an occupied length
  (tail - head) mod capacity between 0 and capacity - 1, and the unread bytes evolve as the queue of the specification:
  an append adds the bytes that fit behind the unread ones, which stay as they are,
  and returns -1 with the overflow message exactly when a byte was left over; the
  bytes copied before the overflow are kept.
\<close>

theorem ring_buffer_invariant:
  assumes pw: "CBC_RING_BUFFER_SIZE K = 2 ^ k"
  shows "ring_ok K r \<Longrightarrow> skips_within K ops r \<Longrightarrow>
    (case ring_run K ops r of (rcs, lgs, r') \<Rightarrow>
       ring_ok K r' \<and>
       ring_avalids K r' =
         (int (ring_tail r') - int (ring_head r')) mod int (CBC_RING_BUFFER_SIZE K) \<and>
       0 \<le> ring_avalids K r' \<and>
       ring_avalids K r' \<le> int (CBC_RING_BUFFER_SIZE K) - 1 \<and>
       (rcs, lgs, ring_contents K r') =
         queue_run (CBC_RING_BUFFER_SIZE K) ops (ring_contents K r))"
proof (induction ops arbitrary: r)
  case Nil
  then show ?case using avalids_bounds [of K r] avalids_mod [of K r] by simp
next
  case (Cons op ops)
  show ?case
  proof (cases op)
    case (Append bs)
    obtain rc r1 lg where c: "cbc_copy_to_ring K bs r = (rc, r1, lg)"
      by (cases "cbc_copy_to_ring K bs r") auto
    from copy_to_ring_contents [OF pw Cons.prems(1), of bs] c
    have ok1: "ring_ok K r1"
      and c1: "ring_contents K r1 = ring_contents K r @ take (CBC_RING_BUFFER_SIZE K - 1 - length (ring_contents K r)) bs"
      and rc: "rc = (if length bs \<le> CBC_RING_BUFFER_SIZE K - 1 - length (ring_contents K r) then 0 else - 1)"
      and lg: "lg = (if rc = 0 then [] else [WPRINTF ''ioc cbc ring buffer is full!!''])"
      by simp_all
    have sw: "skips_within K ops r1" using Cons.prems(2) Append c by simp
    show ?thesis
      using Cons.IH [OF ok1 sw] unfolding Append
      by (simp only: ring_run.simps queue_run.simps c Let_def c1 [symmetric] rc lg split: prod.splits if_splits) auto
  next
    case (Skips n)
    from Cons.prems(2) Skips have le: "int n \<le> ring_avalids K r"
      and sw: "skips_within K ops (cbc_ring_skips K r n)" by simp_all
    from skips_contents [OF Cons.prems(1) pw le]
    have ok1: "ring_ok K (cbc_ring_skips K r n)"
      and c1: "ring_contents K (cbc_ring_skips K r n) = drop n (ring_contents K r)" by simp_all
    show ?thesis using Cons.IH [OF ok1 sw] unfolding Skips by (simp add: c1)
  qed
qed

theorem ring_buffer_invariant_witness:
  "CBC_RING_BUFFER_SIZE ioc_h = 2 ^ 8 \<and> ring_ok ioc_h ring0 \<and> skips_within ioc_h ops0 ring0 \<and>
   (case ring_run ioc_h ops0 ring0 of
      (rcs, lgs, r') \<Rightarrow>
       ring_ok ioc_h r' \<and>
       ring_avalids ioc_h r' =
         (int (ring_tail r') - int (ring_head r')) mod int (CBC_RING_BUFFER_SIZE ioc_h) \<and>
       0 \<le> ring_avalids ioc_h r' \<and>
       ring_avalids ioc_h r' \<le> int (CBC_RING_BUFFER_SIZE ioc_h) - 1 \<and>
       (rcs, lgs, ring_contents ioc_h r') =
         queue_run (CBC_RING_BUFFER_SIZE ioc_h) ops0 (ring_contents ioc_h ring0))"
proof -
  have h1: "CBC_RING_BUFFER_SIZE ioc_h = 2 ^ 8" by code_simp
  have h2: "ring_ok ioc_h ring0" by code_simp
  have h3: "skips_within ioc_h ops0 ring0" by code_simp
  show ?thesis using ring_buffer_invariant [OF h1 h2 h3] h1 h2 h3 by blast
qed


subsection \<open>Checksum\<close>

lemma unat_u8_less: "unat (b :: u8) < 256"
  using unsigned_less [of b, where ?'a = nat] by simp

lemma chk_term: "(0x100 - ucast (b :: u8) :: u16) = of_nat (0x100 - unat b)"
proof -
  have "unat b \<le> 0x100" using unat_u8_less [of b] by simp
  then have "(of_nat (0x100 - unat b) :: u16) = of_nat 0x100 - of_nat (unat b)"
    by (rule of_nat_diff)
  also have "\<dots> = 0x100 - ucast b" by simp
  finally show ?thesis by simp
qed

lemma fold_chksum:
  "fold (\<lambda>b value. value + (0x100 - ucast (b :: u8))) data (acc :: u16) = acc + of_nat (byte_sum data)"
proof (induction data arbitrary: acc)
  case Nil
  show ?case by (simp add: byte_sum_def)
next
  case (Cons b data)
  have "byte_sum (b # data) = (0x100 - unat b) + byte_sum data" by (simp add: byte_sum_def)
  then have "(of_nat (byte_sum (b # data)) :: u16) = of_nat (0x100 - unat b) + of_nat (byte_sum data)"
    by (simp only: of_nat_add)
  then show ?case using Cons.IH [of "acc + (0x100 - ucast b)"]
    by (simp only: fold_simps chk_term add.assoc)
qed

lemma low_byte: "unat ((of_nat n :: u16) AND 0xFF) = n mod 256"
proof -
  have "(0xFF :: u16) = mask 8" by (simp add: mask_eq_exp_minus_1)
  then have "(of_nat n :: u16) AND 0xFF = take_bit 8 (of_nat n)"
    by (simp only: take_bit_eq_mask)
  then have "unat ((of_nat n :: u16) AND 0xFF) = take_bit 8 (unat (of_nat n :: u16))"
    by (simp only: unsigned_take_bit_eq)
  also have "\<dots> = take_bit 8 (take_bit 16 n)" by (simp only: unsigned_of_nat) simp
  also have "\<dots> = take_bit 8 n" by simp
  also have "\<dots> = n mod 256" by (simp add: take_bit_eq_mod)
  finally show ?thesis .
qed

lemma cal_chksum_low: "unat (cbc_cal_chksum data AND 0xFF) = byte_sum data mod 256"
  by (simp only: cbc_cal_chksum_def fold_chksum low_byte add_0)

lemma fold_verify:
  "fold (\<lambda>i value. let pos = (ring_head r + i) AND (CBC_RING_BUFFER_SIZE K - 1)
                     in value + (0x100 - ucast (ring_buf r ! pos))) js (acc :: u16)
   = fold (\<lambda>b value. value + (0x100 - ucast (b :: u8)))
       (map (\<lambda>i. ring_buf r ! ((ring_head r + i) AND (CBC_RING_BUFFER_SIZE K - 1))) js) acc"
  by (induction js arbitrary: acc) (simp_all only: Let_def fold_simps list.map)

lemma verify_chksum_iff:
  "(cbc_verify_chksum K r sz c = 0) = (byte_sum (ring_bytes K r sz) mod 256 = unat c)"
proof -
  let ?s = "byte_sum (ring_bytes K r sz)"
  have "unat (ucast c :: u16) = unat c"
    using unat_u8_less [of c] by (simp add: unsigned_ucast_eq take_bit_nat_eq_self)
  then have "((of_nat ?s :: u16) AND 0xFF = ucast c) = (?s mod 256 = unat c)"
    by (simp only: word_unat_eq_iff low_byte)
  moreover have "cbc_verify_chksum K r sz c = (if (of_nat ?s :: u16) AND 0xFF = ucast c then 0 else - 1)"
    unfolding cbc_verify_chksum_def fold_verify fold_chksum ring_bytes_def by (simp only: Let_def add_0)
  ultimately show ?thesis by simp
qed

lemma unpack_body_eq:
  "cbc_unpack_body K ioc =
     (let a = ring_avalids K (ring ioc); r = ring ioc in
      if a < int (CBC_MIN_FRAME_SIZE K) \<or> a < remains ioc then Break ioc
      else if unat (ring_buf r ! ring_head r) \<noteq> CBC_SOF_VALUE K then Continue (drop_one K ioc)
      else if frame_len_at K r > int (CBC_MAX_FRAME_SIZE K) then Continue (drop_one K ioc)
      else if a < frame_len_at K r then Continue (ioc\<lparr>remains := frame_len_at K r\<rparr>)
      else if byte_sum (ring_bytes K r (nat (frame_len_at K r - 1))) mod 256
                \<noteq> unat (trailing_byte K r)
      then Continue (drop_one K ioc)
      else Continue (accept_frame K ioc))"
  by (simp add: cbc_unpack_body_def Let_def frame_len_at_def trailing_byte_def len_at_def
        seq_at_def els_at_def drop_one_def accept_frame_def ioc_build_request_def
        verify_chksum_iff)


text \<open>
  Claim C3. The low 8 bits of \<open>cbc_cal_chksum\<close> are the sum of \<open>0x100 - byte\<close>
  over the bytes, modulo 256; \<open>cbc_verify_chksum\<close> succeeds exactly when that sum over
  the \<open>size\<close> bytes at the head of the ring, modulo 256, is the given byte. A pass of
  the deframer that finds the start-of-frame value and a frame length within the
  maximum and within the bytes available accepts the frame when the sum over the first
  \<open>frame_len - 1\<close> bytes, modulo 256, is the trailing byte, and otherwise drops one
  byte and goes round the loop again: the head moves on by one, the tail and the
  request queue stay as they are; accepting adds one request.
\<close>

theorem cbc_checksum:
  "unat (cbc_cal_chksum data AND 0xFF) = byte_sum data mod 256 \<and>
   (cbc_verify_chksum K r sz c = 0 \<longleftrightarrow> byte_sum (ring_bytes K r sz) mod 256 = unat c) \<and>
   (int (CBC_MIN_FRAME_SIZE K) \<le> ring_avalids K (ring ioc) \<and>
    remains ioc \<le> ring_avalids K (ring ioc) \<and>
    unat (ring_buf (ring ioc) ! ring_head (ring ioc)) = CBC_SOF_VALUE K \<and>
    frame_len_at K (ring ioc) \<le> int (CBC_MAX_FRAME_SIZE K) \<and>
    frame_len_at K (ring ioc) \<le> ring_avalids K (ring ioc) \<longrightarrow>
    cbc_unpack_body K ioc =
      (if byte_sum (ring_bytes K (ring ioc) (nat (frame_len_at K (ring ioc) - 1))) mod 256
            = unat (trailing_byte K (ring ioc))
       then Continue (accept_frame K ioc)
       else Continue (drop_one K ioc))) \<and>
   rx_queue (drop_one K ioc) = rx_queue ioc \<and>
   ring_tail (ring (drop_one K ioc)) = ring_tail (ring ioc) \<and>
   ring_head (ring (drop_one K ioc)) =
     (ring_head (ring ioc) + 1) AND (CBC_RING_BUFFER_SIZE K - 1) \<and>
   length (rx_queue (accept_frame K ioc)) = length (rx_queue ioc) + 1"
proof -
  have "rx_queue (drop_one K ioc) = rx_queue ioc"
    "ring_tail (ring (drop_one K ioc)) = ring_tail (ring ioc)"
    "ring_head (ring (drop_one K ioc)) = (ring_head (ring ioc) + 1) AND (CBC_RING_BUFFER_SIZE K - 1)"
    by (simp_all add: drop_one_def cbc_ring_skips_def)
  moreover have "length (rx_queue (accept_frame K ioc)) = length (rx_queue ioc) + 1"
    by (simp add: accept_frame_def Let_def ioc_build_request_def)
  ultimately show ?thesis
    by (simp add: cal_chksum_low verify_chksum_iff unpack_body_eq Let_def not_less)
qed

theorem cbc_checksum_witness:
  "int (CBC_MIN_FRAME_SIZE ioc_h) \<le> ring_avalids ioc_h (ring ioc1) \<and>
   remains ioc1 \<le> ring_avalids ioc_h (ring ioc1) \<and>
   unat (ring_buf (ring ioc1) ! ring_head (ring ioc1)) = CBC_SOF_VALUE ioc_h \<and>
   frame_len_at ioc_h (ring ioc1) \<le> int (CBC_MAX_FRAME_SIZE ioc_h) \<and>
   frame_len_at ioc_h (ring ioc1) \<le> ring_avalids ioc_h (ring ioc1) \<and>
   byte_sum (ring_bytes ioc_h (ring ioc1) 7) mod 256 = 0xE9 \<and>
   trailing_byte ioc_h (ring ioc1) = 0xEE \<and>
   cbc_unpack_body ioc_h ioc1 = Continue (drop_one ioc_h ioc1)"
proof -
  have h: "int (CBC_MIN_FRAME_SIZE ioc_h) \<le> ring_avalids ioc_h (ring ioc1)"
    "remains ioc1 \<le> ring_avalids ioc_h (ring ioc1)"
    "unat (ring_buf (ring ioc1) ! ring_head (ring ioc1)) = CBC_SOF_VALUE ioc_h"
    "frame_len_at ioc_h (ring ioc1) \<le> int (CBC_MAX_FRAME_SIZE ioc_h)"
    "frame_len_at ioc_h (ring ioc1) \<le> ring_avalids ioc_h (ring ioc1)"
    by code_simp+
  have fl: "frame_len_at ioc_h (ring ioc1) = 8" by code_simp
  have s: "byte_sum (ring_bytes ioc_h (ring ioc1) 7) mod 256 = 0xE9" by code_simp
  have t: "trailing_byte ioc_h (ring ioc1) = 0xEE" by code_simp
  show ?thesis
    using cbc_checksum [of "[]" ioc_h "ring ioc1" 0 0 ioc1] h s t by (simp add: fl)
qed


subsection \<open>Heartbeat\<close>

text \<open>
  Claim C6. \<open>cbc_update_heartbeat\<close> maps the commands active, standby and initial to
  state 1 and every other command to 0, and synthesizes the SoC-state-update request
  exactly when that state differs from the stored \<open>hb_state\<close>; otherwise it changes
  nothing. From the initial (inactive) state, the first ACTIVE command synthesizes the
  request, which changes the context, and a second ACTIVE command changes nothing.
\<close>

theorem heartbeat_transition:
  "cbc_update_heartbeat K w cmd sus_action =
     (if hb_stat K cmd \<noteq> hb_state w then soc_update_request K w (hb_stat K cmd) else w) \<and>
   (unat cmd = CBC_HB_ACTIVE K \<longrightarrow> hb_stat K cmd = 1) \<and>
   (unat cmd = CBC_HB_STANDBY K \<longrightarrow> hb_stat K cmd = 1) \<and>
   (unat cmd = CBC_HB_INITIAL K \<longrightarrow> hb_stat K cmd = 1) \<and>
   (unat cmd \<noteq> CBC_HB_ACTIVE K \<and> unat cmd \<noteq> CBC_HB_STANDBY K \<and> unat cmd \<noteq> CBC_HB_INITIAL K
      \<longrightarrow> hb_stat K cmd = 0) \<and>
   (unat cmd = CBC_HB_ACTIVE K \<and> hb_state w = 0 \<longrightarrow>
      cbc_update_heartbeat K w cmd sus_action = soc_update_request K w 1 \<and>
      soc_update_request K w 1 \<noteq> w \<and>
      cbc_update_heartbeat K (cbc_update_heartbeat K w cmd sus_action) cmd sus_action' =
        cbc_update_heartbeat K w cmd sus_action)"
proof -
  have eq: "cbc_update_heartbeat K w cmd s =
     (if hb_stat K cmd \<noteq> hb_state w then soc_update_request K w (hb_stat K cmd) else w)" for w s
    by (simp add: cbc_update_heartbeat_def hb_stat_def soc_update_request_def Let_def)
  have ne: "soc_update_request K w 1 \<noteq> w" if "hb_state w = 0"
  proof
    assume "soc_update_request K w 1 = w"
    then have "hb_state (soc_update_request K w 1) = hb_state w" by simp
    with that show False by (simp add: soc_update_request_def)
  qed
  have hs: "hb_state (soc_update_request K w 1) = 1" by (simp add: soc_update_request_def)
  show ?thesis
    using ne hs by (auto simp: eq hb_stat_def)
qed

theorem heartbeat_transition_witness:
  "unat (1 :: u8) = CBC_HB_ACTIVE ioc_h \<and> hb_state (tx0 []) = 0 \<and>
   cbc_update_heartbeat ioc_h (tx0 []) 1 0 = soc_update_request ioc_h (tx0 []) 1 \<and>
   soc_update_request ioc_h (tx0 []) 1 \<noteq> tx0 [] \<and>
   cbc_update_heartbeat ioc_h (cbc_update_heartbeat ioc_h (tx0 []) 1 0) 1 0 =
     cbc_update_heartbeat ioc_h (tx0 []) 1 0"
proof -
  have h: "unat (1 :: u8) = CBC_HB_ACTIVE ioc_h" "hb_state (tx0 []) = 0" by code_simp+
  show ?thesis using heartbeat_transition [of ioc_h "tx0 []" 1 0 0] h by blast
qed


subsection \<open>Sending\<close>

lemma pack_address_fields:
  "srv_len (req (cbc_pack_address K w)) = srv_len (req w)"
  "link_len (req (cbc_pack_address K w)) = link_len (req w)"
  "req_id (req (cbc_pack_address K w)) = req_id (req w)"
  "tx_seq_counter (cbc_pack_address K w) = tx_seq_counter w"
  "xmit_log (cbc_pack_address K w) = xmit_log w"
  "console (cbc_pack_address K w) = console w"
  "xmit_result (cbc_pack_address K w) = xmit_result w"
  by (simp_all add: cbc_pack_address_def Let_def)

lemma pack_link_fields:
  "xmit_log (cbc_pack_link K w) = xmit_log w"
  "xmit_result (cbc_pack_link K w) = xmit_result w"
  "req_id (req (cbc_pack_link K w)) = req_id (req w)"
  "srv_len (req (cbc_pack_link K w)) = srv_len (req w)"
  "cfg (cbc_pack_link K w) = cfg w"
  by (simp_all add: cbc_pack_link_def Let_def split: prod.splits)

lemma send_pkt_unframed:
  assumes "link_len (req w) = 0"
  shows "\<exists>bytes. xmit_log (cbc_send_pkt K w) = xmit_log w @ [(IOC_VIRTUAL_UART K, bytes)]"
  using assms
  by (simp add: cbc_send_pkt_def Let_def ioc_ch_xmit_def pack_link_fields pack_address_fields
        split: prod.splits)


text \<open>
  Claim C8. Sending a packet with \<open>link_len = 0\<close> whose \<open>srv_len\<close> exceeds the maximum
  service size packs no link frame: \<open>cbc_pack_link\<close> returns at its check with the
  debug message, \<open>link_len\<close> stays 0 and the transmit sequence counter is unchanged;
  \<open>cbc_send_pkt\<close> then hands \<open>link_len = 0\<close> bytes to the transmit primitive, so
  no byte of the request reaches the transport.
\<close>

theorem oversized_send:
  assumes "link_len (req w) = 0" and "srv_len (req w) > int (CBC_MAX_SERVICE_SIZE K)"
  shows "xmit_log (cbc_send_pkt K w) = xmit_log w @ [(IOC_VIRTUAL_UART K, [])] \<and>
         concat (map snd (xmit_log (cbc_send_pkt K w))) = concat (map snd (xmit_log w)) \<and>
         link_len (req (cbc_send_pkt K w)) = 0 \<and>
         srv_len (req (cbc_send_pkt K w)) = srv_len (req w) \<and>
         tx_seq_counter (cbc_send_pkt K w) = tx_seq_counter w \<and>
         DPRINTF ''ioc pack req with wrong service length'' \<in> set (console (cbc_send_pkt K w))"
proof -
  let ?a = "cbc_pack_address K w"
  have pl: "cbc_pack_link K ?a = printd ?a ''ioc pack req with wrong service length''"
    using assms(2) by (simp add: cbc_pack_link_def pack_address_fields)
  show ?thesis
    using assms(1)
    by (simp add: cbc_send_pkt_def Let_def pl ioc_ch_xmit_def pack_address_fields)
qed

theorem oversized_send_witness:
  "link_len (req ((tx0 [])\<lparr>req := (req (tx0 []))\<lparr>srv_len := 65\<rparr>\<rparr>)) = 0 \<and>
   srv_len (req ((tx0 [])\<lparr>req := (req (tx0 []))\<lparr>srv_len := 65\<rparr>\<rparr>)) > int (CBC_MAX_SERVICE_SIZE ioc_h) \<and>
   xmit_log (cbc_send_pkt ioc_h ((tx0 [])\<lparr>req := (req (tx0 []))\<lparr>srv_len := 65\<rparr>\<rparr>)) =
     [(IOC_VIRTUAL_UART ioc_h, [])] \<and>
   link_len (req (cbc_send_pkt ioc_h ((tx0 [])\<lparr>req := (req (tx0 []))\<lparr>srv_len := 65\<rparr>\<rparr>))) = 0 \<and>
   tx_seq_counter (cbc_send_pkt ioc_h ((tx0 [])\<lparr>req := (req (tx0 []))\<lparr>srv_len := 65\<rparr>\<rparr>)) = 0"
proof -
  let ?w = "(tx0 [])\<lparr>req := (req (tx0 []))\<lparr>srv_len := 65\<rparr>\<rparr>"
  have h1: "link_len (req ?w) = 0" by (simp add: tx0_def)
  have h2: "srv_len (req ?w) > int (CBC_MAX_SERVICE_SIZE ioc_h)" by (simp add: tx0_def ioc_h_def)
  have x: "xmit_log ?w = []" "tx_seq_counter ?w = 0" by (simp_all add: tx0_def)
  show ?thesis using oversized_send [OF h1 h2] h1 h2 x by simp
qed


subsection \<open>Wakeup reason\<close>

text \<open>
  Claim C7. \<open>cbc_update_wakeup_reason\<close> with reason \<open>r\<close>: when \<open>soc_active\<close> is set,
  \<open>boot_reason\<close> is cleared and the reason is \<open>r\<close> with the SoC bit set, masked with
  \<open>CBC_WK_RSN_ALL\<close>; when it is not set, the reason is \<open>r\<close> with the SoC bit
  cleared, masked, unless a non-zero \<open>boot_reason\<close> is pending, which then replaces it.
  In each case the request built for that reason (three bytes little-endian in the
  payload, lifecycle channel, \<open>srv_len\<close> 4, \<open>link_len\<close> 0) goes to \<open>cbc_send_pkt\<close>
  at once, which adds one transmission on the virtual UART channel.
\<close>

theorem wakeup_reason_broadcast:
  "(soc_active w \<noteq> 0 \<longrightarrow>
      cbc_update_wakeup_reason K w r =
        cbc_send_pkt K (wakeup_request K (w\<lparr>boot_reason := 0\<rparr>)
                          ((r OR CBC_WK_RSN_SOC K) AND CBC_WK_RSN_ALL K))) \<and>
   (soc_active w = 0 \<and> boot_reason w = 0 \<longrightarrow>
      cbc_update_wakeup_reason K w r =
        cbc_send_pkt K (wakeup_request K w ((r AND NOT (CBC_WK_RSN_SOC K)) AND CBC_WK_RSN_ALL K))) \<and>
   (soc_active w = 0 \<and> boot_reason w \<noteq> 0 \<longrightarrow>
      cbc_update_wakeup_reason K w r = cbc_send_pkt K (wakeup_request K w (boot_reason w))) \<and>
   (\<exists>bytes. xmit_log (cbc_update_wakeup_reason K w r) =
              xmit_log w @ [(IOC_VIRTUAL_UART K, bytes)])"
proof -
  have eq: "cbc_update_wakeup_reason K w r =
    (if soc_active w \<noteq> 0
     then cbc_send_pkt K (wakeup_request K (w\<lparr>boot_reason := 0\<rparr>)
                          ((r OR CBC_WK_RSN_SOC K) AND CBC_WK_RSN_ALL K))
     else if boot_reason w = 0
     then cbc_send_pkt K (wakeup_request K w ((r AND NOT (CBC_WK_RSN_SOC K)) AND CBC_WK_RSN_ALL K))
     else cbc_send_pkt K (wakeup_request K w (boot_reason w)))"
    by (simp add: cbc_update_wakeup_reason_def wakeup_request_def Let_def)
  have l0: "link_len (req (wakeup_request K w' x)) = 0" 
    and xl: "xmit_log (wakeup_request K w' x) = xmit_log w'" for w' x
    by (simp_all add: wakeup_request_def)
  have sent: "\<exists>bytes. xmit_log (cbc_send_pkt K (wakeup_request K w' x)) =
                 xmit_log w' @ [(IOC_VIRTUAL_UART K, bytes)]" for w' x
    using send_pkt_unframed [OF l0, of K w' x] by (simp add: xl)
  have "\<exists>bytes. xmit_log (cbc_update_wakeup_reason K w r) = xmit_log w @ [(IOC_VIRTUAL_UART K, bytes)]"
    unfolding eq using sent [of w] sent [of "w\<lparr>boot_reason := 0\<rparr>"] by simp
  then show ?thesis using eq by simp
qed

theorem wakeup_reason_broadcast_witness:
  "soc_active ((tx0 [])\<lparr>soc_active := 1, boot_reason := 7\<rparr>) \<noteq> 0 \<and>
   cbc_update_wakeup_reason ioc_h ((tx0 [])\<lparr>soc_active := 1, boot_reason := 7\<rparr>) 0x220 =
     cbc_send_pkt ioc_h (wakeup_request ioc_h ((tx0 [])\<lparr>soc_active := 1, boot_reason := 0\<rparr>)
        ((0x220 OR CBC_WK_RSN_SOC ioc_h) AND CBC_WK_RSN_ALL ioc_h)) \<and>
   xmit_log (cbc_update_wakeup_reason ioc_h ((tx0 [])\<lparr>soc_active := 1, boot_reason := 7\<rparr>) 0x220) =
     [(19, [5, 0, 14, 1, 32, 2, 128, 74])] \<and>
   soc_active (tx0 []) = 0 \<and> boot_reason (tx0 []) = 0 \<and>
   cbc_update_wakeup_reason ioc_h (tx0 []) 0x800220 =
     cbc_send_pkt ioc_h (wakeup_request ioc_h (tx0 [])
        ((0x800220 AND NOT (CBC_WK_RSN_SOC ioc_h)) AND CBC_WK_RSN_ALL ioc_h)) \<and>
   xmit_log (cbc_update_wakeup_reason ioc_h (tx0 []) 0x800220) =
     [(19, [5, 0, 14, 1, 32, 2, 0, 202])] \<and>
   soc_active ((tx0 [])\<lparr>boot_reason := 0x01000020\<rparr>) = 0 \<and>
   boot_reason ((tx0 [])\<lparr>boot_reason := 0x01000020\<rparr>) \<noteq> 0 \<and>
   cbc_update_wakeup_reason ioc_h ((tx0 [])\<lparr>boot_reason := 0x01000020\<rparr>) 0x220 =
     cbc_send_pkt ioc_h (wakeup_request ioc_h ((tx0 [])\<lparr>boot_reason := 0x01000020\<rparr>) 0x01000020) \<and>
   xmit_log (cbc_update_wakeup_reason ioc_h ((tx0 [])\<lparr>boot_reason := 0x01000020\<rparr>) 0x220) =
     [(19, [5, 0, 14, 1, 32, 0, 0, 204])]"
proof -
  have a: "soc_active ((tx0 [])\<lparr>soc_active := 1, boot_reason := 7\<rparr>) \<noteq> 0" by simp
  have b: "soc_active (tx0 []) = 0" "boot_reason (tx0 []) = 0" by (simp_all add: tx0_def)
  have c: "soc_active ((tx0 [])\<lparr>boot_reason := 0x01000020\<rparr>) = 0"
    "boot_reason ((tx0 [])\<lparr>boot_reason := 0x01000020\<rparr>) \<noteq> 0" by (simp_all add: tx0_def)
  have xa: "xmit_log (cbc_update_wakeup_reason ioc_h ((tx0 [])\<lparr>soc_active := 1, boot_reason := 7\<rparr>) 0x220) =
     [(19, [5, 0, 14, 1, 32, 2, 128, 74])]" by code_simp
  have xb: "xmit_log (cbc_update_wakeup_reason ioc_h (tx0 []) 0x800220) =
     [(19, [5, 0, 14, 1, 32, 2, 0, 202])]" by code_simp
  have xc: "xmit_log (cbc_update_wakeup_reason ioc_h ((tx0 [])\<lparr>boot_reason := 0x01000020\<rparr>) 0x220) =
     [(19, [5, 0, 14, 1, 32, 0, 0, 204])]" by code_simp
  show ?thesis
    using wakeup_reason_broadcast [of "(tx0 [])\<lparr>soc_active := 1, boot_reason := 7\<rparr>" ioc_h "0x220"]
      wakeup_reason_broadcast [of "tx0 []" ioc_h "0x800220"]
      wakeup_reason_broadcast [of "(tx0 [])\<lparr>boot_reason := 0x01000020\<rparr>" ioc_h "0x220"]
      a b c xa xb xc
    by simp
qed


subsection \<open>Signal table lookup\<close>


lemma find_signal_from_Some:
  "find_signal_from i id' tbl = Some p \<Longrightarrow>
     i \<le> p \<and> p - i < length tbl \<and> sig_id (tbl ! (p - i)) = id' \<and>
     (\<forall>j < p - i. sig_id (tbl ! j) \<noteq> id')"
proof (induction tbl arbitrary: i)
  case Nil
  then show ?case by simp
next
  case (Cons s tbl)
  show ?case
  proof (cases "id' = sig_id s")
    case True
    with Cons.prems show ?thesis by simp
  next
    case False
    with Cons.prems have f: "find_signal_from (Suc i) id' tbl = Some p" by simp
    from Cons.IH [OF f] have ih: "Suc i \<le> p" "p - Suc i < length tbl"
      "sig_id (tbl ! (p - Suc i)) = id'" "\<forall>j < p - Suc i. sig_id (tbl ! j) \<noteq> id'" by simp_all
    from ih(1) obtain d where d: "p - i = Suc d" "p - Suc i = d" by (cases "p - i") auto
    have "\<forall>j < Suc d. sig_id ((s # tbl) ! j) \<noteq> id'"
      using False ih(4) d(2) by (auto simp: less_Suc_eq_0_disj)
    with ih d show ?thesis by simp
  qed
qed


lemma cbc_find_signal_Some:
  assumes "cbc_find_signal id' tbl sz = Some p"
  shows "p < sz \<and> p < length tbl \<and> sig_id (tbl ! p) = id' \<and> (\<forall>j < p. sig_id (tbl ! j) \<noteq> id')"
proof -
  from find_signal_from_Some [OF assms [unfolded cbc_find_signal_def]]
  have "p < length (take sz tbl) \<and> sig_id (take sz tbl ! p) = id' \<and>
        (\<forall>j < p. sig_id (take sz tbl ! j) \<noteq> id')"
    by (simp only: diff_zero) blast
  then have p: "p < length (take sz tbl)" and q: "sig_id (take sz tbl ! p) = id'"
    and n: "\<forall>j < p. sig_id (take sz tbl ! j) \<noteq> id'" by blast+
  from p have b: "p < sz" "p < length tbl" by simp_all
  from q b have "sig_id (tbl ! p) = id'" by simp
  moreover from n b have "\<forall>j < p. sig_id (tbl ! j) \<noteq> id'" by simp
  ultimately show ?thesis using b by simp
qed





subsection \<open>Forwarding and the inactive flag\<close>

lemma disable_signal_keeps:
  "length (cbc_disable_signal K i tbl sz) = length tbl"
  "map sig_id (cbc_disable_signal K i tbl sz) = map sig_id tbl"
  "map sig_len (cbc_disable_signal K i tbl sz) = map sig_len tbl"
  by (auto simp: cbc_disable_signal_def map_update list_update_same_conv
      split: option.splits dest: cbc_find_signal_Some)

lemma find_signal_from_ids:
  "map sig_id t1 = map sig_id t2 \<Longrightarrow> find_signal_from i id' t1 = find_signal_from i id' t2"
proof (induction t1 arbitrary: t2 i)
  case Nil
  then show ?case by simp
next
  case (Cons s t1)
  then obtain s' t2' where t2: "t2 = s' # t2'" by (cases t2) auto
  with Cons.prems have "sig_id s = sig_id s'" "map sig_id t1 = map sig_id t2'" by simp_all
  with Cons.IH [of t2' "Suc i"] show ?case by (simp add: t2)
qed

lemma get_signal_len_cong:
  assumes "map sig_id t1 = map sig_id t2" and "map sig_len t1 = map sig_len t2"
  shows "cbc_get_signal_len id' t1 sz = cbc_get_signal_len id' t2 sz"
proof -
  have ids: "map sig_id (take sz t1) = map sig_id (take sz t2)"
    using assms(1) by (simp add: take_map [symmetric])
  have f: "cbc_find_signal id' t1 sz = cbc_find_signal id' t2 sz"
    unfolding cbc_find_signal_def by (rule find_signal_from_ids [OF ids])
  show ?thesis
  proof (cases "cbc_find_signal id' t2 sz")
    case None
    with f show ?thesis by (simp add: cbc_get_signal_len_def)
  next
    case (Some p)
    from cbc_find_signal_Some [OF Some] have p2: "p < length t2" by simp
    from assms(1) have "length t1 = length t2" by (metis length_map)
    with p2 have p1: "p < length t1" by simp
    have "map sig_len t1 ! p = map sig_len t2 ! p" using assms(2) by simp
    with p1 p2 have "sig_len (t1 ! p) = sig_len (t2 ! p)" by simp
    with f Some show ?thesis by (simp add: cbc_get_signal_len_def)
  qed
qed

lemma fold_copy_cfg:
  "fold (\<lambda>j w. set_buf w (a j) (get_buf w (b j))) js (w\<lparr>cfg := c\<rparr>) =
     (fold (\<lambda>j w. set_buf w (a j) (get_buf w (b j))) js w)\<lparr>cfg := c\<rparr>"
proof (induction js arbitrary: w)
  case Nil
  show ?case by simp
next
  case (Cons j js)
  have "set_buf (w\<lparr>cfg := c\<rparr>) (a j) (get_buf (w\<lparr>cfg := c\<rparr>) (b j)) =
        (set_buf w (a j) (get_buf w (b j)))\<lparr>cfg := c\<rparr>" by simp
  then show ?case using Cons.IH [of "set_buf w (a j) (get_buf w (b j))"]
    by (simp only: fold_simps)
qed

lemma fold_copy_cfg_same:
  "cfg (fold (\<lambda>j w. set_buf w (a j) (get_buf w (b j))) js w) = cfg w"
  by (induction js arbitrary: w) simp_all

lemma payload_id_cfg: "payload_id K (w\<lparr>cfg := c\<rparr>) i = payload_id K w i"
  by (simp add: payload_id_def)

lemma forward_body_cfg:
  assumes "\<forall>i. cbc_get_signal_len i (cbc_sig_tbl c) (cbc_sig_num c) =
               cbc_get_signal_len i (cbc_sig_tbl (cfg w)) (cbc_sig_num (cfg w))"
  shows "cbc_forward_body K (w\<lparr>cfg := c\<rparr>, offset, num, valids) =
           (case cbc_forward_body K (w, offset, num, valids) of
              (stop, w', rest) \<Rightarrow> (stop, w'\<lparr>cfg := c\<rparr>, rest))"
    and "cfg (fst (snd (cbc_forward_body K (w, offset, num, valids)))) = cfg w"
  using assms
  by (simp_all add: cbc_forward_body_def Let_def wlist_verify_signal_def payload_id_cfg
        fold_copy_cfg fold_copy_cfg_same)

lemma forward_loop_cfg:
  "\<forall>i. cbc_get_signal_len i (cbc_sig_tbl c) (cbc_sig_num c) =
       cbc_get_signal_len i (cbc_sig_tbl (cfg (fst st))) (cbc_sig_num (cfg (fst st))) \<Longrightarrow>
   cbc_forward_loop K i (with_cfg c st) =
     (case cbc_forward_loop K i st of (stop, st') \<Rightarrow> (stop, with_cfg c st'))"
proof (induction K i st rule: cbc_forward_loop.induct)
  case (1 K i st)
  obtain w offset num valids where st: "st = (w, offset, num, valids)" by (cases st) auto
  obtain stop w' rest where b: "cbc_forward_body K st = (stop, w', rest)"
    by (cases "cbc_forward_body K st") auto
  have len: "\<forall>i. cbc_get_signal_len i (cbc_sig_tbl c) (cbc_sig_num c) =
       cbc_get_signal_len i (cbc_sig_tbl (cfg w)) (cbc_sig_num (cfg w))"
    using "1.prems" by (simp add: st)
  have b': "cbc_forward_body K (with_cfg c st) = (stop, with_cfg c (w', rest))"
    using forward_body_cfg(1) [OF len, of K offset num valids] b
    by (simp add: st with_cfg_def)
  have cw: "cfg w' = cfg w"
    using forward_body_cfg(2) [of c w K offset num valids] len b by (simp add: st)
  have g: "get_buf (fst (with_cfg c st)) (CBC_PAYLOAD_POS K) = get_buf (fst st) (CBC_PAYLOAD_POS K)"
    by (simp add: st with_cfg_def)
  show ?case
  proof (cases "i < uint (get_buf (fst st) (CBC_PAYLOAD_POS K))")
    case False
    then show ?thesis
      by (subst cbc_forward_loop.simps, subst (2) cbc_forward_loop.simps) (simp add: g)
  next
    case True
    show ?thesis
    proof (cases stop)
      case True
      with \<open>i < uint (get_buf (fst st) (CBC_PAYLOAD_POS K))\<close> show ?thesis
        by (subst cbc_forward_loop.simps, subst (2) cbc_forward_loop.simps) (simp add: g b b')
    next
      case False
      have ih: "cbc_forward_loop K (i + 1) (with_cfg c (w', rest)) =
        (case cbc_forward_loop K (i + 1) (w', rest) of (stop, st') \<Rightarrow> (stop, with_cfg c st'))"
        using "1.IH" [of stop "(w', rest)"] True False b len cw by simp
      with True False show ?thesis
        by (subst cbc_forward_loop.simps, subst (2) cbc_forward_loop.simps) (simp add: g b b')
    qed
  qed
qed

lemma pack_address_cfg: "cbc_pack_address K (w\<lparr>cfg := c\<rparr>) = (cbc_pack_address K w)\<lparr>cfg := c\<rparr>"
  by (simp add: cbc_pack_address_def Let_def)

lemma pack_link_cfg: "cbc_pack_link K (w\<lparr>cfg := c\<rparr>) = (cbc_pack_link K w)\<lparr>cfg := c\<rparr>"
  by (simp add: cbc_pack_link_def Let_def split: prod.splits)

lemma send_pkt_cfg: "cbc_send_pkt K (w\<lparr>cfg := c\<rparr>) = (cbc_send_pkt K w)\<lparr>cfg := c\<rparr>"
  by (simp add: cbc_send_pkt_def Let_def pack_address_cfg pack_link_cfg ioc_ch_xmit_def
        split: prod.splits)

lemma upd_swap: "(x :: cbc_tx)\<lparr>cfg := c, req := r\<rparr> = x\<lparr>req := r, cfg := c\<rparr>"
  by (cases x) simp

lemma forward_signals_cfg:
  assumes "\<forall>i. cbc_get_signal_len i (cbc_sig_tbl c) (cbc_sig_num c) =
       cbc_get_signal_len i (cbc_sig_tbl (cfg w)) (cbc_sig_num (cfg w))"
  shows "cbc_forward_signals K (w\<lparr>cfg := c\<rparr>) = (cbc_forward_signals K w)\<lparr>cfg := c\<rparr>"
proof -
  obtain stop w' offset num valids
    where l: "cbc_forward_loop K 0 (w, 1, 0, 1) = (stop, w', offset, num, valids)"
    by (cases "cbc_forward_loop K 0 (w, 1, 0, 1)") auto
  have "cbc_forward_loop K 0 (with_cfg c (w, 1, 0, 1)) = (stop, with_cfg c (w', offset, num, valids))"
    using forward_loop_cfg [of c "(w, 1, 0, 1)" K 0] assms l by simp
  then have l': "cbc_forward_loop K 0 (w\<lparr>cfg := c\<rparr>, 1, 0, 1) = (stop, w'\<lparr>cfg := c\<rparr>, offset, num, valids)"
    by (simp add: with_cfg_def)
  have sb: "cbc_send_pkt K (x\<lparr>cfg := c, req := r\<rparr>) = (cbc_send_pkt K (x\<lparr>req := r\<rparr>))\<lparr>cfg := c\<rparr>" for x r
    using send_pkt_cfg [where w = "x\<lparr>req := r\<rparr>" and c = c and K = K] by (simp only: upd_swap)
  show ?thesis
    by (cases stop) (simp_all add: cbc_forward_signals_def l l' Let_def sb)
qed


text \<open>
  Claim C5, as the code has it. \<open>cbc_disable_signal\<close> sets the flag of the first table
  entry with the id to inactive, and nothing else. \<open>cbc_forward_signals\<close> reads the
  table only through \<open>cbc_get_signal_len\<close>, never the flag, and the whitelist check is
  a stub that accepts every id: forwarding after the invalidation of any id does to
  the request, the transmissions and the console exactly what it does before it, so
  an entry with the invalidated id stays in the compacted output.
\<close>

theorem invalidation_ignored_by_forwarding:
  "(\<forall>p. cbc_find_signal i (cbc_sig_tbl (cfg w)) (cbc_sig_num (cfg w)) = Some p \<longrightarrow>
        sig_flag (cbc_disable_signal K i (cbc_sig_tbl (cfg w)) (cbc_sig_num (cfg w)) ! p) =
          CBC_INACTIVE K) \<and>
   cbc_forward_signals K
     (w\<lparr>cfg := (cfg w)\<lparr>cbc_sig_tbl :=
        cbc_disable_signal K i (cbc_sig_tbl (cfg w)) (cbc_sig_num (cfg w))\<rparr>\<rparr>) =
   (cbc_forward_signals K w)
     \<lparr>cfg := (cfg w)\<lparr>cbc_sig_tbl :=
        cbc_disable_signal K i (cbc_sig_tbl (cfg w)) (cbc_sig_num (cfg w))\<rparr>\<rparr>"
proof -
  let ?t = "cbc_disable_signal K i (cbc_sig_tbl (cfg w)) (cbc_sig_num (cfg w))"
  have "sig_flag (?t ! p) = CBC_INACTIVE K"
    if "cbc_find_signal i (cbc_sig_tbl (cfg w)) (cbc_sig_num (cfg w)) = Some p" for p
    using that cbc_find_signal_Some [OF that] by (simp add: cbc_disable_signal_def)
  moreover have "\<forall>j. cbc_get_signal_len j (cbc_sig_tbl ((cfg w)\<lparr>cbc_sig_tbl := ?t\<rparr>))
                     (cbc_sig_num ((cfg w)\<lparr>cbc_sig_tbl := ?t\<rparr>)) =
       cbc_get_signal_len j (cbc_sig_tbl (cfg w)) (cbc_sig_num (cfg w))"
    using get_signal_len_cong [OF disable_signal_keeps(2) disable_signal_keeps(3)] by simp
  ultimately show ?thesis using forward_signals_cfg by blast
qed

theorem invalidation_ignored_by_forwarding_witness:
  "cbc_find_signal 0x0101 (cbc_sig_tbl (cfg w5)) (cbc_sig_num (cfg w5)) = Some 0 \<and>
   sig_flag (cbc_disable_signal ioc_h 0x0101 (cbc_sig_tbl (cfg w5)) (cbc_sig_num (cfg w5)) ! 0) =
     CBC_INACTIVE ioc_h \<and>
   cbc_forward_signals ioc_h w5_invalidated =
     (cbc_forward_signals ioc_h w5)
       \<lparr>cfg := (cfg w5)\<lparr>cbc_sig_tbl :=
          cbc_disable_signal ioc_h 0x0101 (cbc_sig_tbl (cfg w5)) (cbc_sig_num (cfg w5))\<rparr>\<rparr>"
proof -
  have f: "cbc_find_signal 0x0101 (cbc_sig_tbl (cfg w5)) (cbc_sig_num (cfg w5)) = Some 0"
    by code_simp
  show ?thesis
    using invalidation_ignored_by_forwarding [of "0x0101" w5 ioc_h] f
    unfolding w5_invalidated_def by blast
qed

text \<open>
  Claim C5, as stated, fails: after signal 0x0101 has been marked inactive, forwarding
  the request with the single entry 0x0101 transmits the multi-signal command, the
  count 1 and the entry (id and value): the entry is not excluded.
\<close>

theorem invalidated_signal_forwarded:
  "cbc_sig_tbl (cfg w5_invalidated) ! 0 = \<lparr>sig_id = 0x0101, sig_len = 8, sig_flag = CBC_INACTIVE ioc_h\<rparr> \<and>
   wlist_verify_signal 0x0101 (wlist_sig_tbl (cfg w5_invalidated)) (wlist_sig_num (cfg w5_invalidated)) = 0 \<and>
   get_buf w5_invalidated (CBC_PAYLOAD_POS ioc_h) = 1 \<and>
   payload_id ioc_h w5_invalidated 1 = 0x0101 \<and>
   xmit_log (cbc_forward_signals ioc_h w5_invalidated) = [(2, [0x02, 0x01, 0x01, 0x01, 0xAA])]"
  by code_simp



subsection \<open>Multi-id invalidation\<close>

lemma find_signal_disable:
  "cbc_find_signal j (cbc_disable_signal K i tbl sz) sz = cbc_find_signal j tbl sz"
proof -
  have "map sig_id (take sz (cbc_disable_signal K i tbl sz)) = map sig_id (take sz tbl)"
    using disable_signal_keeps(2) [of K i tbl sz] by (simp add: take_map [symmetric])
  then show ?thesis unfolding cbc_find_signal_def by (rule find_signal_from_ids)
qed

lemma disable_signal_nth:
  "cbc_disable_signal K i tbl sz ! q =
     (if cbc_find_signal i tbl sz = Some q then (tbl ! q)\<lparr>sig_flag := CBC_INACTIVE K\<rparr> else tbl ! q)"
  by (auto simp: cbc_disable_signal_def split: option.splits dest: cbc_find_signal_Some)

lemma fold_disable_ids:
  "map sig_id (fold (\<lambda>i t. cbc_disable_signal K i t sz) ids tbl) = map sig_id tbl"
  "map sig_len (fold (\<lambda>i t. cbc_disable_signal K i t sz) ids tbl) = map sig_len tbl"
  "cbc_find_signal j (fold (\<lambda>i t. cbc_disable_signal K i t sz) ids tbl) sz = cbc_find_signal j tbl sz"
  by (induction ids arbitrary: tbl) (simp_all add: disable_signal_keeps find_signal_disable)

lemma fold_disable_stays:
  "sig_flag (tbl ! p) = CBC_INACTIVE K \<Longrightarrow>
   sig_flag (fold (\<lambda>i t. cbc_disable_signal K i t sz) ids tbl ! p) = CBC_INACTIVE K"
  by (induction ids arbitrary: tbl) (simp_all add: disable_signal_nth)

lemma fold_disable_marks:
  "i \<in> set ids \<Longrightarrow> cbc_find_signal i tbl sz = Some p \<Longrightarrow>
   sig_flag (fold (\<lambda>i t. cbc_disable_signal K i t sz) ids tbl ! p) = CBC_INACTIVE K"
proof (induction ids arbitrary: tbl)
  case Nil
  then show ?case by simp
next
  case (Cons a ids)
  show ?case
  proof (cases "i = a")
    case True
    with Cons.prems(2) have "sig_flag (cbc_disable_signal K a tbl sz ! p) = CBC_INACTIVE K"
      by (simp add: disable_signal_nth)
    then show ?thesis by (simp add: fold_disable_stays)
  next
    case False
    with Cons.prems(1) have "i \<in> set ids" by simp
    moreover have "cbc_find_signal i (cbc_disable_signal K a tbl sz) sz = Some p"
      using Cons.prems(2) by (simp add: find_signal_disable)
    ultimately show ?thesis using Cons.IH by simp
  qed
qed

lemma fold_disable_untouched:
  "sig_id (tbl ! q) \<notin> set ids \<Longrightarrow>
   fold (\<lambda>i t. cbc_disable_signal K i t sz) ids tbl ! q = tbl ! q"
proof (induction ids arbitrary: tbl)
  case Nil
  then show ?case by simp
next
  case (Cons a ids)
  have ne: "cbc_find_signal a tbl sz \<noteq> Some q"
  proof
    assume "cbc_find_signal a tbl sz = Some q"
    from cbc_find_signal_Some [OF this] have "sig_id (tbl ! q) = a" by simp
    with Cons.prems show False by simp
  qed
  then have same: "cbc_disable_signal K a tbl sz ! q = tbl ! q" by (simp add: disable_signal_nth)
  with Cons.prems have "sig_id (cbc_disable_signal K a tbl sz ! q) \<notin> set ids" by simp
  from Cons.IH [OF this] same show ?case by simp
qed

lemma find_group_from_Some:
  "find_group_from i id' tbl = Some p \<Longrightarrow>
     i \<le> p \<and> p - i < length tbl \<and> grp_id (tbl ! (p - i)) = id' \<and>
     (\<forall>j < p - i. grp_id (tbl ! j) \<noteq> id')"
proof (induction tbl arbitrary: i)
  case Nil
  then show ?case by simp
next
  case (Cons s tbl)
  show ?case
  proof (cases "id' = grp_id s")
    case True
    with Cons.prems show ?thesis by simp
  next
    case False
    with Cons.prems have f: "find_group_from (Suc i) id' tbl = Some p" by simp
    from Cons.IH [OF f] have ih: "Suc i \<le> p" "p - Suc i < length tbl"
      "grp_id (tbl ! (p - Suc i)) = id'" "\<forall>j < p - Suc i. grp_id (tbl ! j) \<noteq> id'" by simp_all
    from ih(1) obtain d where d: "p - i = Suc d" "p - Suc i = d" by (cases "p - i") auto
    have "\<forall>j < Suc d. grp_id ((s # tbl) ! j) \<noteq> id'"
      using False ih(4) d(2) by (auto simp: less_Suc_eq_0_disj)
    with ih d show ?thesis by simp
  qed
qed

lemma cbc_find_group_Some:
  assumes "cbc_find_signal_group id' tbl sz = Some p"
  shows "p < sz \<and> p < length tbl \<and> grp_id (tbl ! p) = id' \<and> (\<forall>j < p. grp_id (tbl ! j) \<noteq> id')"
proof -
  from find_group_from_Some [OF assms [unfolded cbc_find_signal_group_def]]
  have "p < length (take sz tbl) \<and> grp_id (take sz tbl ! p) = id' \<and>
        (\<forall>j < p. grp_id (take sz tbl ! j) \<noteq> id')"
    by (simp only: diff_zero) blast
  then have p: "p < length (take sz tbl)" and q: "grp_id (take sz tbl ! p) = id'"
    and n: "\<forall>j < p. grp_id (take sz tbl ! j) \<noteq> id'" by blast+
  from p have b: "p < sz" "p < length tbl" by simp_all
  from q b have "grp_id (tbl ! p) = id'" by simp
  moreover from n b have "\<forall>j < p. grp_id (tbl ! j) \<noteq> id'" by simp
  ultimately show ?thesis using b by simp
qed


lemma disable_group_keeps:
  "length (cbc_disable_signal_group K i tbl sz) = length tbl"
  "map grp_id (cbc_disable_signal_group K i tbl sz) = map grp_id tbl"
  by (auto simp: cbc_disable_signal_group_def map_update list_update_same_conv
      split: option.splits dest: cbc_find_group_Some)

lemma find_group_from_ids:
  "map grp_id t1 = map grp_id t2 \<Longrightarrow> find_group_from i id' t1 = find_group_from i id' t2"
proof (induction t1 arbitrary: t2 i)
  case Nil
  then show ?case by simp
next
  case (Cons s t1)
  then obtain s' t2' where t2: "t2 = s' # t2'" by (cases t2) auto
  with Cons.prems have "grp_id s = grp_id s'" "map grp_id t1 = map grp_id t2'" by simp_all
  with Cons.IH [of t2' "Suc i"] show ?case by (simp add: t2)
qed

lemma find_group_disable:
  "cbc_find_signal_group j (cbc_disable_signal_group K i tbl sz) sz = cbc_find_signal_group j tbl sz"
proof -
  have "map grp_id (take sz (cbc_disable_signal_group K i tbl sz)) = map grp_id (take sz tbl)"
    using disable_group_keeps(2) [of K i tbl sz] by (simp add: take_map [symmetric])
  then show ?thesis unfolding cbc_find_signal_group_def by (rule find_group_from_ids)
qed

lemma disable_group_nth:
  "cbc_disable_signal_group K i tbl sz ! q =
     (if cbc_find_signal_group i tbl sz = Some q then (tbl ! q)\<lparr>grp_flag := CBC_INACTIVE K\<rparr> else tbl ! q)"
  by (auto simp: cbc_disable_signal_group_def split: option.splits dest: cbc_find_group_Some)

lemma fold_disable_grp_ids:
  "map grp_id (fold (\<lambda>i t. cbc_disable_signal_group K i t sz) ids tbl) = map grp_id tbl"
  "cbc_find_signal_group j (fold (\<lambda>i t. cbc_disable_signal_group K i t sz) ids tbl) sz = cbc_find_signal_group j tbl sz"
  by (induction ids arbitrary: tbl) (simp_all add: disable_group_keeps find_group_disable)

lemma fold_disable_grp_stays:
  "grp_flag (tbl ! p) = CBC_INACTIVE K \<Longrightarrow>
   grp_flag (fold (\<lambda>i t. cbc_disable_signal_group K i t sz) ids tbl ! p) = CBC_INACTIVE K"
  by (induction ids arbitrary: tbl) (simp_all add: disable_group_nth)

lemma fold_disable_grp_marks:
  "i \<in> set ids \<Longrightarrow> cbc_find_signal_group i tbl sz = Some p \<Longrightarrow>
   grp_flag (fold (\<lambda>i t. cbc_disable_signal_group K i t sz) ids tbl ! p) = CBC_INACTIVE K"
proof (induction ids arbitrary: tbl)
  case Nil
  then show ?case by simp
next
  case (Cons a ids)
  show ?case
  proof (cases "i = a")
    case True
    with Cons.prems(2) have "grp_flag (cbc_disable_signal_group K a tbl sz ! p) = CBC_INACTIVE K"
      by (simp add: disable_group_nth)
    then show ?thesis by (simp add: fold_disable_grp_stays)
  next
    case False
    with Cons.prems(1) have "i \<in> set ids" by simp
    moreover have "cbc_find_signal_group i (cbc_disable_signal_group K a tbl sz) sz = Some p"
      using Cons.prems(2) by (simp add: find_group_disable)
    ultimately show ?thesis using Cons.IH by simp
  qed
qed

lemma fold_disable_grp_untouched:
  "grp_id (tbl ! q) \<notin> set ids \<Longrightarrow>
   fold (\<lambda>i t. cbc_disable_signal_group K i t sz) ids tbl ! q = tbl ! q"
proof (induction ids arbitrary: tbl)
  case Nil
  then show ?case by simp
next
  case (Cons a ids)
  have ne: "cbc_find_signal_group a tbl sz \<noteq> Some q"
  proof
    assume "cbc_find_signal_group a tbl sz = Some q"
    from cbc_find_group_Some [OF this] have "grp_id (tbl ! q) = a" by simp
    with Cons.prems show False by simp
  qed
  then have same: "cbc_disable_signal_group K a tbl sz ! q = tbl ! q" by (simp add: disable_group_nth)
  with Cons.prems have "grp_id (cbc_disable_signal_group K a tbl sz ! q) \<notin> set ids" by simp
  from Cons.IH [OF this] same show ?case by simp
qed

lemma fold_cfg_sig:
  assumes F: "\<And>j w. F j w = w\<lparr>cfg := (cfg w)\<lparr>cbc_sig_tbl :=
      cbc_disable_signal K (payload_id K w (g j)) (cbc_sig_tbl (cfg w)) (cbc_sig_num (cfg w))\<rparr>\<rparr>"
  shows "fold F js w =
         w\<lparr>cfg := (cfg w)\<lparr>cbc_sig_tbl :=
            fold (\<lambda>i tbl. cbc_disable_signal K i tbl (cbc_sig_num (cfg w)))
              (map (\<lambda>j. payload_id K w (g j)) js) (cbc_sig_tbl (cfg w))\<rparr>\<rparr>"
proof (induction js arbitrary: w)
  case Nil
  show ?case by simp
next
  case (Cons j js)
  have p: "payload_id K (F j w) x = payload_id K w x" for x by (simp add: F payload_id_def)
  have "fold F (j # js) w = fold F js (F j w)" by simp
  also have "\<dots> = (F j w)\<lparr>cfg := (cfg (F j w))\<lparr>cbc_sig_tbl :=
            fold (\<lambda>i tbl. cbc_disable_signal K i tbl (cbc_sig_num (cfg (F j w))))
              (map (\<lambda>j. payload_id K w (g j)) js) (cbc_sig_tbl (cfg (F j w)))\<rparr>\<rparr>"
    by (simp only: Cons.IH p)
  also have "\<dots> = w\<lparr>cfg := (cfg w)\<lparr>cbc_sig_tbl :=
            fold (\<lambda>i tbl. cbc_disable_signal K i tbl (cbc_sig_num (cfg w)))
              (map (\<lambda>j. payload_id K w (g j)) (j # js)) (cbc_sig_tbl (cfg w))\<rparr>\<rparr>"
    by (simp add: F)
  finally show ?case .
qed

lemma fold_cfg_grp:
  assumes F: "\<And>j w. F j w = w\<lparr>cfg := (cfg w)\<lparr>cbc_grp_tbl :=
      cbc_disable_signal_group K (payload_id K w (g j)) (cbc_grp_tbl (cfg w)) (cbc_grp_num (cfg w))\<rparr>\<rparr>"
  shows "fold F js w =
         w\<lparr>cfg := (cfg w)\<lparr>cbc_grp_tbl :=
            fold (\<lambda>i tbl. cbc_disable_signal_group K i tbl (cbc_grp_num (cfg w)))
              (map (\<lambda>j. payload_id K w (g j)) js) (cbc_grp_tbl (cfg w))\<rparr>\<rparr>"
proof (induction js arbitrary: w)
  case Nil
  show ?case by simp
next
  case (Cons j js)
  have p: "payload_id K (F j w) x = payload_id K w x" for x by (simp add: F payload_id_def)
  have "fold F (j # js) w = fold F js (F j w)" by simp
  also have "\<dots> = (F j w)\<lparr>cfg := (cfg (F j w))\<lparr>cbc_grp_tbl :=
            fold (\<lambda>i tbl. cbc_disable_signal_group K i tbl (cbc_grp_num (cfg (F j w))))
              (map (\<lambda>j. payload_id K w (g j)) js) (cbc_grp_tbl (cfg (F j w)))\<rparr>\<rparr>"
    by (simp only: Cons.IH p)
  also have "\<dots> = w\<lparr>cfg := (cfg w)\<lparr>cbc_grp_tbl :=
            fold (\<lambda>i tbl. cbc_disable_signal_group K i tbl (cbc_grp_num (cfg w)))
              (map (\<lambda>j. payload_id K w (g j)) (j # js)) (cbc_grp_tbl (cfg w))\<rparr>\<rparr>"
    by (simp add: F)
  finally show ?case .
qed


text \<open>
  Claim C9, as the code has it. With \<open>n\<close> the second payload byte,
  \<open>cbc_set_invalidation\<close> rejects the request (debug message, nothing marked) exactly
  when \<open>n * 2 + 2\<close> is at least the maximum service size, so also when it equals it.
  Otherwise, in signal scope the signal table, in group scope the group table, becomes
  the table with the listed ids disabled in turn: ids (and bit lengths) are as before,
  for every listed id the first entry carrying it is inactive, and an entry whose id
  is not listed is untouched.
\<close>

theorem invalidation_bound:
  "(unat (get_buf w (CBC_PAYLOAD_POS K + 1)) * 2 + 2 \<ge> CBC_MAX_SERVICE_SIZE K \<longrightarrow>
      cbc_set_invalidation K w t = printd w ''ioc cbc group number is invalid'') \<and>
   (unat (get_buf w (CBC_PAYLOAD_POS K + 1)) * 2 + 2 < CBC_MAX_SERVICE_SIZE K \<and>
    t = CBC_INVAL_T_SIGNAL K \<longrightarrow>
      cbc_set_invalidation K w t = w\<lparr>cfg := (cfg w)\<lparr>cbc_sig_tbl := invalidated_signals K w\<rparr>\<rparr>) \<and>
   (unat (get_buf w (CBC_PAYLOAD_POS K + 1)) * 2 + 2 < CBC_MAX_SERVICE_SIZE K \<and>
    t \<noteq> CBC_INVAL_T_SIGNAL K \<and> t = CBC_INVAL_T_GROUP K \<longrightarrow>
      cbc_set_invalidation K w t = w\<lparr>cfg := (cfg w)\<lparr>cbc_grp_tbl := invalidated_groups K w\<rparr>\<rparr>) \<and>
   map sig_id (invalidated_signals K w) = map sig_id (cbc_sig_tbl (cfg w)) \<and>
   map sig_len (invalidated_signals K w) = map sig_len (cbc_sig_tbl (cfg w)) \<and>
   (\<forall>i \<in> set (inval_ids K w). \<forall>p.
      cbc_find_signal i (cbc_sig_tbl (cfg w)) (cbc_sig_num (cfg w)) = Some p \<longrightarrow>
      sig_flag (invalidated_signals K w ! p) = CBC_INACTIVE K) \<and>
   (\<forall>q. sig_id (cbc_sig_tbl (cfg w) ! q) \<notin> set (inval_ids K w) \<longrightarrow>
      invalidated_signals K w ! q = cbc_sig_tbl (cfg w) ! q) \<and>
   map grp_id (invalidated_groups K w) = map grp_id (cbc_grp_tbl (cfg w)) \<and>
   (\<forall>i \<in> set (inval_ids K w). \<forall>p.
      cbc_find_signal_group i (cbc_grp_tbl (cfg w)) (cbc_grp_num (cfg w)) = Some p \<longrightarrow>
      grp_flag (invalidated_groups K w ! p) = CBC_INACTIVE K) \<and>
   (\<forall>q. grp_id (cbc_grp_tbl (cfg w) ! q) \<notin> set (inval_ids K w) \<longrightarrow>
      invalidated_groups K w ! q = cbc_grp_tbl (cfg w) ! q)"
proof -
  have rej: "cbc_set_invalidation K w t = printd w ''ioc cbc group number is invalid''"
    if "unat (get_buf w (CBC_PAYLOAD_POS K + 1)) * 2 + 2 \<ge> CBC_MAX_SERVICE_SIZE K"
    using that by (simp add: cbc_set_invalidation_def)
  have sg: "cbc_set_invalidation K w t = w\<lparr>cfg := (cfg w)\<lparr>cbc_sig_tbl := invalidated_signals K w\<rparr>\<rparr>"
    if "unat (get_buf w (CBC_PAYLOAD_POS K + 1)) * 2 + 2 < CBC_MAX_SERVICE_SIZE K"
      "t = CBC_INVAL_T_SIGNAL K"
  proof -
    have "cbc_set_invalidation K w t =
      fold (\<lambda>i w. w\<lparr>cfg := (cfg w)\<lparr>cbc_sig_tbl :=
              cbc_disable_signal K (payload_id K w (i * 2 + 2)) (cbc_sig_tbl (cfg w))
                (cbc_sig_num (cfg w))\<rparr>\<rparr>)
        [0..<unat (get_buf w (CBC_PAYLOAD_POS K + 1))] w"
      using that by (simp add: cbc_set_invalidation_def Let_def)
    also have "\<dots> = w\<lparr>cfg := (cfg w)\<lparr>cbc_sig_tbl := invalidated_signals K w\<rparr>\<rparr>"
      unfolding invalidated_signals_def inval_ids_def by (rule fold_cfg_sig) simp
    finally show ?thesis .
  qed
  have gr: "cbc_set_invalidation K w t = w\<lparr>cfg := (cfg w)\<lparr>cbc_grp_tbl := invalidated_groups K w\<rparr>\<rparr>"
    if "unat (get_buf w (CBC_PAYLOAD_POS K + 1)) * 2 + 2 < CBC_MAX_SERVICE_SIZE K"
      "t \<noteq> CBC_INVAL_T_SIGNAL K" "t = CBC_INVAL_T_GROUP K"
  proof -
    have "cbc_set_invalidation K w t =
      fold (\<lambda>i w. w\<lparr>cfg := (cfg w)\<lparr>cbc_grp_tbl :=
              cbc_disable_signal_group K (payload_id K w (i * 2 + 2)) (cbc_grp_tbl (cfg w))
                (cbc_grp_num (cfg w))\<rparr>\<rparr>)
        [0..<unat (get_buf w (CBC_PAYLOAD_POS K + 1))] w"
      using that by (simp add: cbc_set_invalidation_def Let_def)
    also have "\<dots> = w\<lparr>cfg := (cfg w)\<lparr>cbc_grp_tbl := invalidated_groups K w\<rparr>\<rparr>"
      unfolding invalidated_groups_def inval_ids_def by (rule fold_cfg_grp) simp
    finally show ?thesis .
  qed
  show ?thesis
    unfolding invalidated_signals_def invalidated_groups_def
    using rej sg [unfolded invalidated_signals_def] gr [unfolded invalidated_groups_def]
    by (simp add: fold_disable_ids fold_disable_marks fold_disable_untouched
          fold_disable_grp_ids fold_disable_grp_marks fold_disable_grp_untouched)
qed

theorem invalidation_bound_witness:
  "unat (get_buf w9_full (CBC_PAYLOAD_POS ioc_h + 1)) * 2 + 2 \<ge> CBC_MAX_SERVICE_SIZE ioc_h \<and>
   cbc_set_invalidation ioc_h w9_full (CBC_INVAL_T_SIGNAL ioc_h) =
     printd w9_full ''ioc cbc group number is invalid'' \<and>
   unat (get_buf w9_sig (CBC_PAYLOAD_POS ioc_h + 1)) * 2 + 2 < CBC_MAX_SERVICE_SIZE ioc_h \<and>
   cbc_set_invalidation ioc_h w9_sig (CBC_INVAL_T_SIGNAL ioc_h) =
     w9_sig\<lparr>cfg := (cfg w9_sig)\<lparr>cbc_sig_tbl := invalidated_signals ioc_h w9_sig\<rparr>\<rparr> \<and>
   inval_ids ioc_h w9_sig = [0x0101, 0x0303] \<and>
   invalidated_signals ioc_h w9_sig =
     [\<lparr>sig_id = 0x0101, sig_len = 8, sig_flag = 0\<rparr>,
      \<lparr>sig_id = 0x0202, sig_len = 10, sig_flag = 1\<rparr>,
      \<lparr>sig_id = 0x0303, sig_len = 3, sig_flag = 0\<rparr>] \<and>
   cbc_find_signal 0x0303 (cbc_sig_tbl (cfg w9_sig)) (cbc_sig_num (cfg w9_sig)) = Some 2 \<and>
   sig_flag (invalidated_signals ioc_h w9_sig ! 2) = CBC_INACTIVE ioc_h \<and>
   sig_id (cbc_sig_tbl (cfg w9_sig) ! 1) \<notin> set (inval_ids ioc_h w9_sig) \<and>
   invalidated_signals ioc_h w9_sig ! 1 = cbc_sig_tbl (cfg w9_sig) ! 1 \<and>
   unat (get_buf w9_grp (CBC_PAYLOAD_POS ioc_h + 1)) * 2 + 2 < CBC_MAX_SERVICE_SIZE ioc_h \<and>
   CBC_INVAL_T_GROUP ioc_h \<noteq> CBC_INVAL_T_SIGNAL ioc_h \<and>
   cbc_set_invalidation ioc_h w9_grp (CBC_INVAL_T_GROUP ioc_h) =
     w9_grp\<lparr>cfg := (cfg w9_grp)\<lparr>cbc_grp_tbl := invalidated_groups ioc_h w9_grp\<rparr>\<rparr> \<and>
   inval_ids ioc_h w9_grp = [0x0022] \<and>
   invalidated_groups ioc_h w9_grp =
     [\<lparr>grp_id = 0x0011, grp_flag = 1\<rparr>, \<lparr>grp_id = 0x0022, grp_flag = 0\<rparr>] \<and>
   cbc_find_signal_group 0x0022 (cbc_grp_tbl (cfg w9_grp)) (cbc_grp_num (cfg w9_grp)) = Some 1 \<and>
   grp_flag (invalidated_groups ioc_h w9_grp ! 1) = CBC_INACTIVE ioc_h \<and>
   grp_id (cbc_grp_tbl (cfg w9_grp) ! 0) \<notin> set (inval_ids ioc_h w9_grp) \<and>
   invalidated_groups ioc_h w9_grp ! 0 = cbc_grp_tbl (cfg w9_grp) ! 0"
proof -
  have a: "unat (get_buf w9_full (CBC_PAYLOAD_POS ioc_h + 1)) * 2 + 2 \<ge> CBC_MAX_SERVICE_SIZE ioc_h"
    by code_simp
  have b: "unat (get_buf w9_sig (CBC_PAYLOAD_POS ioc_h + 1)) * 2 + 2 < CBC_MAX_SERVICE_SIZE ioc_h"
    by code_simp
  have c: "unat (get_buf w9_grp (CBC_PAYLOAD_POS ioc_h + 1)) * 2 + 2 < CBC_MAX_SERVICE_SIZE ioc_h"
    "CBC_INVAL_T_GROUP ioc_h \<noteq> CBC_INVAL_T_SIGNAL ioc_h"
    by code_simp+
  have i: "inval_ids ioc_h w9_sig = [0x0101, 0x0303]" "inval_ids ioc_h w9_grp = [0x0022]"
    by code_simp+
  have t: "invalidated_signals ioc_h w9_sig =
     [\<lparr>sig_id = 0x0101, sig_len = 8, sig_flag = 0\<rparr>,
      \<lparr>sig_id = 0x0202, sig_len = 10, sig_flag = 1\<rparr>,
      \<lparr>sig_id = 0x0303, sig_len = 3, sig_flag = 0\<rparr>]"
    "invalidated_groups ioc_h w9_grp =
     [\<lparr>grp_id = 0x0011, grp_flag = 1\<rparr>, \<lparr>grp_id = 0x0022, grp_flag = 0\<rparr>]"
    by code_simp+
  have f: "cbc_find_signal 0x0303 (cbc_sig_tbl (cfg w9_sig)) (cbc_sig_num (cfg w9_sig)) = Some 2"
    "cbc_find_signal_group 0x0022 (cbc_grp_tbl (cfg w9_grp)) (cbc_grp_num (cfg w9_grp)) = Some 1"
    by code_simp+
  have n: "sig_id (cbc_sig_tbl (cfg w9_sig) ! 1) \<notin> set (inval_ids ioc_h w9_sig)"
    "grp_id (cbc_grp_tbl (cfg w9_grp) ! 0) \<notin> set (inval_ids ioc_h w9_grp)"
    by code_simp+
  have m: "(0x0303 :: u16) \<in> set (inval_ids ioc_h w9_sig)" "(0x0022 :: u16) \<in> set (inval_ids ioc_h w9_grp)"
    unfolding i by simp_all
  note A = invalidation_bound [where w = w9_full and K = ioc_h and t = "CBC_INVAL_T_SIGNAL ioc_h"]
  note B = invalidation_bound [where w = w9_sig and K = ioc_h and t = "CBC_INVAL_T_SIGNAL ioc_h"]
  note C = invalidation_bound [where w = w9_grp and K = ioc_h and t = "CBC_INVAL_T_GROUP ioc_h"]
  from A a have 1: "cbc_set_invalidation ioc_h w9_full (CBC_INVAL_T_SIGNAL ioc_h) =
     printd w9_full ''ioc cbc group number is invalid''" by blast
  from B b have 2: "cbc_set_invalidation ioc_h w9_sig (CBC_INVAL_T_SIGNAL ioc_h) =
     w9_sig\<lparr>cfg := (cfg w9_sig)\<lparr>cbc_sig_tbl := invalidated_signals ioc_h w9_sig\<rparr>\<rparr>" by blast
  from B m(1) f(1) have 3: "sig_flag (invalidated_signals ioc_h w9_sig ! 2) = CBC_INACTIVE ioc_h" by blast
  from B n(1) have 4: "invalidated_signals ioc_h w9_sig ! 1 = cbc_sig_tbl (cfg w9_sig) ! 1" by blast
  from C c have 5: "cbc_set_invalidation ioc_h w9_grp (CBC_INVAL_T_GROUP ioc_h) =
     w9_grp\<lparr>cfg := (cfg w9_grp)\<lparr>cbc_grp_tbl := invalidated_groups ioc_h w9_grp\<rparr>\<rparr>" by blast
  from C m(2) f(2) have 6: "grp_flag (invalidated_groups ioc_h w9_grp ! 1) = CBC_INACTIVE ioc_h" by blast
  from C n(2) have 7: "invalidated_groups ioc_h w9_grp ! 0 = cbc_grp_tbl (cfg w9_grp) ! 0" by blast
  show ?thesis
    using a b c i t f n 1 2 3 4 5 6 7 by (intro conjI)
qed


text \<open>
  Claim C9, as stated, fails at the bound: for \<open>n = 31\<close> the value \<open>n * 2 + 2\<close> is
  64 and does not exceed the maximum service size 64, but the request is rejected: the
  listed signal 0x0101, which is in the table and active, stays active.
\<close>

theorem invalidation_at_bound_rejected:
  "unat (get_buf w9_full (CBC_PAYLOAD_POS ioc_h + 1)) * 2 + 2 = 64 \<and>
   \<not> 64 > CBC_MAX_SERVICE_SIZE ioc_h \<and>
   payload_id ioc_h w9_full 2 = 0x0101 \<and>
   cbc_find_signal 0x0101 (cbc_sig_tbl (cfg w9_full)) (cbc_sig_num (cfg w9_full)) = Some 0 \<and>
   sig_flag (cbc_sig_tbl (cfg w9_full) ! 0) \<noteq> CBC_INACTIVE ioc_h \<and>
   cbc_sig_tbl (cfg (cbc_set_invalidation ioc_h w9_full (CBC_INVAL_T_SIGNAL ioc_h))) =
     cbc_sig_tbl (cfg w9_full) \<and>
   console (cbc_set_invalidation ioc_h w9_full (CBC_INVAL_T_SIGNAL ioc_h)) =
     [DPRINTF ''ioc cbc group number is invalid'']"
  by code_simp


subsection \<open>The deframer loop\<close>

lemma length_ring_contents: "length (ring_contents K r) = nat (ring_avalids K r)"
  by (simp add: ring_contents_def)

lemma ring_nth:
  "i < nat (ring_avalids K r) \<Longrightarrow>
   ring_buf r ! ((ring_head r + i) AND (CBC_RING_BUFFER_SIZE K - 1)) = ring_contents K r ! i"
  by (simp add: ring_contents_def)

lemma ring_head_byte:
  assumes "ring_ok K r" "CBC_RING_BUFFER_SIZE K = 2 ^ k" "0 < ring_avalids K r"
  shows "ring_buf r ! ring_head r = ring_contents K r ! 0"
proof -
  have "(ring_head r + 0) AND (CBC_RING_BUFFER_SIZE K - 1) = ring_head r"
    using assms(1) by (simp add: and_size_mod_Suc [OF assms(2)] ring_ok_def)
  with ring_nth [of 0 K r] assms(3) show ?thesis by simp
qed

lemma ring_bytes_take:
  "n \<le> nat (ring_avalids K r) \<Longrightarrow> ring_bytes K r n = take n (ring_contents K r)"
  by (simp add: ring_bytes_def ring_contents_def take_map)

lemma frame_len_at_of:
  assumes "CBC_ELS_POS K < nat (ring_avalids K r)"
  shows "frame_len_at K r = frame_len_of K (ring_contents K r)"
  using ring_nth [OF assms]
  by (simp add: frame_len_at_def len_at_def els_at_def frame_len_of_def)

lemma trailing_byte_of:
  assumes "CBC_ELS_POS K < nat (ring_avalids K r)" "0 < frame_len_at K r"
    "frame_len_at K r \<le> ring_avalids K r"
  shows "trailing_byte K r = ring_contents K r ! (nat (frame_len_of K (ring_contents K r)) - 1)"
proof -
  have "nat (frame_len_at K r) - 1 < nat (ring_avalids K r)" using assms(2,3) by linarith
  from ring_nth [OF this] have "trailing_byte K r = ring_contents K r ! (nat (frame_len_at K r) - 1)"
    using assms(2) by (simp add: trailing_byte_def Nat.add_diff_assoc)
  then show ?thesis by (simp add: frame_len_at_of [OF assms(1)])
qed

lemma frame_len_of_append:
  "CBC_ELS_POS K < length fr \<Longrightarrow> frame_len_of K (fr @ rest) = frame_len_of K fr"
  by (simp add: frame_len_of_def nth_append)

lemma chksum_ok_append:
  assumes "CBC_ELS_POS K < length fr" "frame_len_of K fr = int (length fr)"
  shows "chksum_ok K (fr @ rest) = chksum_ok K fr"
proof -
  have l: "0 < length fr" using assms(1) by (cases fr) simp_all
  then have "nat (int (length fr)) - 1 < length fr" by simp
  then show ?thesis
    using l by (simp add: chksum_ok_def frame_len_of_append [OF assms(1)] assms(2) nth_append)
qed

lemma accept_frame_fields:
  "rx_queue (accept_frame K d) = rx_queue d @
     [\<lparr>srv_len = uint (len_at K (ring d)), link_len = frame_len_at K (ring d), req_id = 0,
       rtype = CBC_REQ_T_PROT K,
       req_buf = ring_bytes K (ring d) (nat (frame_len_at K (ring d)))\<rparr>]"
  "ring (accept_frame K d) = cbc_ring_skips K (ring d) (nat (frame_len_at K (ring d)))"
  "remains (accept_frame K d) = 0"
  by (simp_all add: accept_frame_def Let_def ioc_build_request_def ring_bytes_def)

lemma drop_one_fields:
  "rx_queue (drop_one K d) = rx_queue d"
  "ring (drop_one K d) = cbc_ring_skips K (ring d) 1"
  "remains (drop_one K d) = 0"
  by (simp_all add: drop_one_def)

lemma body_on_valid:
  assumes ok: "ring_ok K (ring d)" and pw: "CBC_RING_BUFFER_SIZE K = 2 ^ k"
    and c: "ring_contents K (ring d) = fr @ rest" and v: "valid_frame K fr"
    and rem: "remains d \<le> ring_avalids K (ring d)"
  shows "cbc_unpack_body K d = Continue (accept_frame K d)"
proof -
  let ?r = "ring d"
  from v have sof: "unat (fr ! 0) = CBC_SOF_VALUE K" and els: "CBC_ELS_POS K < length fr"
    and fl: "frame_len_of K fr = int (length fr)"
    and mn: "CBC_MIN_FRAME_SIZE K \<le> length fr" and mx: "length fr \<le> CBC_MAX_FRAME_SIZE K"
    and ck: "chksum_ok K fr" by (simp_all add: valid_frame_def)
  have av: "nat (ring_avalids K ?r) = length fr + length rest"
    using length_ring_contents [of K ?r] c by simp
  have avi: "ring_avalids K ?r = int (length fr) + int (length rest)"
    using av avalids_bounds [OF ok] by linarith
  have lpos: "0 < length fr" using els by (cases fr) simp_all
  have e: "CBC_ELS_POS K < nat (ring_avalids K ?r)" using els av by simp
  have fla: "frame_len_at K ?r = int (length fr)"
    by (simp add: frame_len_at_of [OF e] c frame_len_of_append [OF els] fl)
  have hd: "ring_buf ?r ! ring_head ?r = fr ! 0"
    using ring_head_byte [OF ok pw] avi lpos c by (simp add: nth_append)
  have tb: "trailing_byte K ?r = (fr @ rest) ! (nat (frame_len_of K (fr @ rest)) - 1)"
    using trailing_byte_of [OF e] fla avi lpos c by simp
  have rb: "ring_bytes K ?r (nat (frame_len_at K ?r - 1)) = take (nat (frame_len_of K (fr @ rest) - 1)) (fr @ rest)"
    using ring_bytes_take [of "nat (frame_len_at K ?r - 1)" K ?r] fla av c
    by (simp add: frame_len_of_append [OF els] fl)
  have "chksum_ok K (fr @ rest)" using ck chksum_ok_append [OF els fl] by simp
  then have sum: "byte_sum (ring_bytes K ?r (nat (frame_len_at K ?r - 1))) mod 256 = unat (trailing_byte K ?r)"
    unfolding rb tb by (simp add: chksum_ok_def)
  show ?thesis
    using rem mn mx sum by (simp add: unpack_body_eq Let_def hd sof fla avi)
qed

lemma body_on_invalid:
  assumes ok: "ring_ok K (ring d)" and pw: "CBC_RING_BUFFER_SIZE K = 2 ^ k"
    and c: "ring_contents K (ring d) = bytes" and f: "detect_fails K bytes"
    and mn: "CBC_MIN_FRAME_SIZE K \<le> length bytes" and els: "CBC_ELS_POS K < length bytes"
    and hdr: "0 < CBC_LINK_HDR_SIZE K + CBC_ADDR_HDR_SIZE K"
    and rem: "remains d \<le> ring_avalids K (ring d)"
  shows "cbc_unpack_body K d = Continue (drop_one K d)"
proof -
  let ?r = "ring d"
  have av: "nat (ring_avalids K ?r) = length bytes"
    using length_ring_contents [of K ?r] c by simp
  have avi: "ring_avalids K ?r = int (length bytes)"
    using av avalids_bounds [OF ok] by linarith
  have lpos: "0 < length bytes" using els by (cases bytes) simp_all
  have e: "CBC_ELS_POS K < nat (ring_avalids K ?r)" using els av by simp
  have fla: "frame_len_at K ?r = frame_len_of K bytes"
    by (simp add: frame_len_at_of [OF e] c)
  have flpos: "0 < frame_len_at K ?r"
    using hdr uint_ge_0 [of "len_at K ?r"] unfolding frame_len_at_def by linarith
  have hd: "ring_buf ?r ! ring_head ?r = bytes ! 0"
    using ring_head_byte [OF ok pw] avi lpos c by simp
  have sum: "(byte_sum (ring_bytes K ?r (nat (frame_len_at K ?r - 1))) mod 256 = unat (trailing_byte K ?r))
      = chksum_ok K bytes" if "frame_len_of K bytes \<le> int (length bytes)"
  proof -
    have tb: "trailing_byte K ?r = bytes ! (nat (frame_len_of K bytes) - 1)"
      using trailing_byte_of [OF e flpos] that fla avi c by simp
    have rb: "ring_bytes K ?r (nat (frame_len_at K ?r - 1)) = take (nat (frame_len_of K bytes - 1)) bytes"
      using ring_bytes_take [of "nat (frame_len_at K ?r - 1)" K ?r] that fla av c by simp
    show ?thesis unfolding rb tb by (simp add: chksum_ok_def)
  qed
  show ?thesis
    using rem mn f sum by (auto simp: unpack_body_eq Let_def hd fla avi detect_fails_def)
qed

lemma body_on_short:
  "ring_avalids K (ring d) < int (CBC_MIN_FRAME_SIZE K) \<Longrightarrow> cbc_unpack_body K d = Break d"
  by (simp add: unpack_body_eq Let_def)

lemma unpack_link_Break: "cbc_unpack_body K d = Break d' \<Longrightarrow> cbc_unpack_link K d = Some d'"
  by (subst cbc_unpack_link.simps) simp

lemma unpack_link_Continue:
  "cbc_unpack_body K d = Continue d' \<Longrightarrow> cbc_unpack_link K d = cbc_unpack_link K d'"
  by (subst cbc_unpack_link.simps) simp

lemma unpack_valid_frame:
  assumes ok: "ring_ok K (ring d)" and pw: "CBC_RING_BUFFER_SIZE K = 2 ^ k"
    and c: "ring_contents K (ring d) = fr" and v: "valid_frame K fr"
    and rem: "remains d \<le> ring_avalids K (ring d)" and mn: "0 < CBC_MIN_FRAME_SIZE K"
  shows "cbc_unpack_link K d = Some (accept_frame K d)"
    and "rx_queue (accept_frame K d) = rx_queue d @
           [\<lparr>srv_len = uint (len_at K (ring d)), link_len = int (length fr), req_id = 0,
             rtype = CBC_REQ_T_PROT K, req_buf = fr\<rparr>]"
    and "ring_ok K (ring (accept_frame K d))"
    and "ring_avalids K (ring (accept_frame K d)) = 0"
    and "ring_tail (ring (accept_frame K d)) = ring_tail (ring d)"
    and "uint (len_at K (ring d)) =
           int (length fr) - int (CBC_LINK_HDR_SIZE K) - int (CBC_ADDR_HDR_SIZE K)"
proof -
  let ?r = "ring d"
  from v have els: "CBC_ELS_POS K < length fr" and fl: "frame_len_of K fr = int (length fr)"
    by (simp_all add: valid_frame_def)
  have av: "nat (ring_avalids K ?r) = length fr"
    using length_ring_contents [of K ?r] c by simp
  have avi: "ring_avalids K ?r = int (length fr)"
    using av avalids_bounds [OF ok] by linarith
  have fla: "frame_len_at K ?r = int (length fr)"
    using els av by (simp add: frame_len_at_of c fl)
  show "uint (len_at K (ring d)) =
           int (length fr) - int (CBC_LINK_HDR_SIZE K) - int (CBC_ADDR_HDR_SIZE K)"
    using fla by (simp add: frame_len_at_def)
  have b: "cbc_unpack_body K d = Continue (accept_frame K d)"
    using body_on_valid [OF ok pw _ v rem, of "[]"] c by simp
  have sk: "ring_ok K (cbc_ring_skips K ?r (length fr)) \<and>
         ring_avalids K (cbc_ring_skips K ?r (length fr)) = ring_avalids K ?r - int (length fr) \<and>
         ring_contents K (cbc_ring_skips K ?r (length fr)) = drop (length fr) (ring_contents K ?r)"
    by (rule skips_contents [OF ok pw]) (simp add: avi)
  have r': "ring (accept_frame K d) = cbc_ring_skips K ?r (length fr)"
    by (simp add: accept_frame_fields fla)
  show ok': "ring_ok K (ring (accept_frame K d))" using sk by (simp add: r')
  show a0: "ring_avalids K (ring (accept_frame K d)) = 0" using sk avi by (simp add: r')
  show "ring_tail (ring (accept_frame K d)) = ring_tail (ring d)"
    by (simp add: r' cbc_ring_skips_def)
  have "cbc_unpack_body K (accept_frame K d) = Break (accept_frame K d)"
    using a0 mn by (intro body_on_short) simp
  then show "cbc_unpack_link K d = Some (accept_frame K d)"
    using b by (simp add: unpack_link_Continue unpack_link_Break)
  have "ring_bytes K ?r (length fr) = fr"
    using ring_bytes_take [of "length fr" K ?r] av c by simp
  then show "rx_queue (accept_frame K d) = rx_queue d @
           [\<lparr>srv_len = uint (len_at K (ring d)), link_len = int (length fr), req_id = 0,
             rtype = CBC_REQ_T_PROT K, req_buf = fr\<rparr>]"
    by (simp add: accept_frame_fields fla)
qed

lemma unpack_link_terminates:
  assumes pw: "CBC_RING_BUFFER_SIZE K = 2 ^ k" and mn: "0 < CBC_MIN_FRAME_SIZE K"
    and hdr: "0 < CBC_LINK_HDR_SIZE K + CBC_ADDR_HDR_SIZE K"
  shows "ring_ok K (ring d) \<Longrightarrow> \<exists>d'. cbc_unpack_link K d = Some d'"
proof (induction "2 * nat (ring_avalids K (ring d)) + (if ring_avalids K (ring d) < remains d then 0 else 1)"
       arbitrary: d rule: less_induct)
  case less
  let ?a = "ring_avalids K (ring d)"
  note ok = less.prems
  have flpos: "0 < frame_len_at K (ring d)"
    using hdr uint_ge_0 [of "len_at K (ring d)"] unfolding frame_len_at_def by linarith
  show ?case
  proof (cases "cbc_unpack_body K d")
    case (Break d')
    then show ?thesis by (simp add: unpack_link_Break)
  next
    case (Continue d')
    then have pass: "int (CBC_MIN_FRAME_SIZE K) \<le> ?a" "remains d \<le> ?a"
      by (auto simp: unpack_body_eq Let_def split: if_splits)
    have apos: "0 < ?a" using pass(1) mn by linarith
    from Continue consider (drop) "d' = drop_one K d"
      | (wait) "d' = d\<lparr>remains := frame_len_at K (ring d)\<rparr>" "?a < frame_len_at K (ring d)"
      | (acc) "d' = accept_frame K d" "frame_len_at K (ring d) \<le> ?a"
      by (auto simp: unpack_body_eq Let_def split: if_splits)
    then have "ring_ok K (ring d') \<and>
       2 * nat (ring_avalids K (ring d')) + (if ring_avalids K (ring d') < remains d' then 0 else 1)
         < 2 * nat ?a + (if ?a < remains d then 0 else 1)"
    proof cases
      case drop
      have "int 1 \<le> ?a" using apos by simp
      from skips_contents [OF ok pw this] show ?thesis
        using pass(2) apos by (simp add: drop drop_one_fields)
    next
      case wait
      then show ?thesis using ok pass(2) by simp
    next
      case acc
      have "int (nat (frame_len_at K (ring d))) \<le> ?a" using acc(2) flpos by simp
      from skips_contents [OF ok pw this] show ?thesis
        using pass(2) flpos acc(2) by (simp add: acc(1) accept_frame_fields)
    qed
    then obtain d'' where "cbc_unpack_link K d' = Some d''" using less.hyps [of d'] by blast
    then show ?thesis using Continue by (simp add: unpack_link_Continue)
  qed
qed


text \<open>
  Claim C2. The ring capacity is a power of two, the minimum frame size and the sum
  of the header sizes are positive. If the ring holds exactly one byte on which frame
  detection fails followed by one complete valid frame, and the deframer is not
  waiting for more bytes than the ring holds, then one call of \<open>cbc_unpack_link\<close>
  returns, having dropped the byte and accepted the frame: exactly one request, with
  the bytes of the frame, has been handed to \<open>ioc_build_request\<close>, and the
  \<open>1 + frame_len\<close> bytes that were in the ring are consumed. Whenever a pass of the
  loop ends a failed attempt by dropping a byte, one byte less is in the ring; and the
  loop terminates from every well-formed ring.
\<close>

theorem resynchronization:
  assumes pw: "CBC_RING_BUFFER_SIZE K = 2 ^ k" and mn: "0 < CBC_MIN_FRAME_SIZE K"
    and hdr: "0 < CBC_LINK_HDR_SIZE K + CBC_ADDR_HDR_SIZE K"
  shows
  "(ring_ok K (ring d) \<and> ring_contents K (ring d) = g # fr \<and> valid_frame K fr \<and>
    detect_fails K (g # fr) \<and> remains d \<le> 1 + int (length fr) \<longrightarrow>
      cbc_unpack_link K d = Some (accept_frame K (drop_one K d)) \<and>
      rx_queue (accept_frame K (drop_one K d)) = rx_queue d @
        [\<lparr>srv_len = int (length fr) - int (CBC_LINK_HDR_SIZE K) - int (CBC_ADDR_HDR_SIZE K),
          link_len = int (length fr), req_id = 0, rtype = CBC_REQ_T_PROT K, req_buf = fr\<rparr>] \<and>
      ring_avalids K (ring d) = 1 + int (length fr) \<and>
      ring_avalids K (ring (accept_frame K (drop_one K d))) = 0 \<and>
      ring_tail (ring (accept_frame K (drop_one K d))) = ring_tail (ring d)) \<and>
   (ring_ok K (ring e) \<and> cbc_unpack_body K e = Continue (drop_one K e) \<longrightarrow>
      ring_avalids K (ring (drop_one K e)) = ring_avalids K (ring e) - 1) \<and>
   (ring_ok K (ring e) \<longrightarrow> (\<exists>e'. cbc_unpack_link K e = Some e'))"
proof -
  have A: "cbc_unpack_link K d = Some (accept_frame K (drop_one K d)) \<and>
      rx_queue (accept_frame K (drop_one K d)) = rx_queue d @
        [\<lparr>srv_len = int (length fr) - int (CBC_LINK_HDR_SIZE K) - int (CBC_ADDR_HDR_SIZE K),
          link_len = int (length fr), req_id = 0, rtype = CBC_REQ_T_PROT K, req_buf = fr\<rparr>] \<and>
      ring_avalids K (ring d) = 1 + int (length fr) \<and>
      ring_avalids K (ring (accept_frame K (drop_one K d))) = 0 \<and>
      ring_tail (ring (accept_frame K (drop_one K d))) = ring_tail (ring d)"
    if ok: "ring_ok K (ring d)" and c: "ring_contents K (ring d) = g # fr" and v: "valid_frame K fr"
      and f: "detect_fails K (g # fr)" and rem: "remains d \<le> 1 + int (length fr)"
  proof -
    from v have els: "CBC_ELS_POS K < length fr" and vmn: "CBC_MIN_FRAME_SIZE K \<le> length fr"
      by (simp_all add: valid_frame_def)
    have av: "nat (ring_avalids K (ring d)) = Suc (length fr)"
      using length_ring_contents [of K "ring d"] c by simp
    have avi: "ring_avalids K (ring d) = 1 + int (length fr)"
      using av avalids_bounds [OF ok] by linarith
    have b1: "cbc_unpack_body K d = Continue (drop_one K d)"
      using body_on_invalid [OF ok pw c f _ _ hdr] els vmn rem avi by simp
    let ?d1 = "drop_one K d"
    have "int 1 \<le> ring_avalids K (ring d)" using avi by simp
    from skips_contents [OF ok pw this]
    have ok1: "ring_ok K (ring ?d1)" and av1: "ring_avalids K (ring ?d1) = int (length fr)"
      and c1: "ring_contents K (ring ?d1) = fr"
      by (simp_all add: drop_one_fields c avi)
    have rem1: "remains ?d1 \<le> ring_avalids K (ring ?d1)"
      unfolding av1 drop_one_fields(3) by simp
    note U = unpack_valid_frame [OF ok1 pw c1 v rem1 mn]
    have t1: "ring_tail (ring ?d1) = ring_tail (ring d)"
      by (simp add: drop_one_fields cbc_ring_skips_def)
    have q1: "rx_queue ?d1 = rx_queue d" by (simp add: drop_one_fields)
    show ?thesis
      using U b1 avi by (simp add: unpack_link_Continue t1 q1)
  qed
  have B: "ring_avalids K (ring (drop_one K e)) = ring_avalids K (ring e) - 1"
    if ok: "ring_ok K (ring e)" and b: "cbc_unpack_body K e = Continue (drop_one K e)"
  proof -
    from b have "int (CBC_MIN_FRAME_SIZE K) \<le> ring_avalids K (ring e)"
      by (auto simp: unpack_body_eq Let_def split: if_splits)
    then have "int 1 \<le> ring_avalids K (ring e)" using mn by linarith
    from skips_contents [OF ok pw this] show ?thesis by (simp add: drop_one_fields)
  qed
  show ?thesis using A B unpack_link_terminates [OF pw mn hdr] by blast
qed

theorem resynchronization_witness:
  "CBC_RING_BUFFER_SIZE ioc_h = 2 ^ 8 \<and> 0 < CBC_MIN_FRAME_SIZE ioc_h \<and>
   0 < CBC_LINK_HDR_SIZE ioc_h + CBC_ADDR_HDR_SIZE ioc_h \<and>
   ring_ok ioc_h (ring ioc2) \<and>
   ring_contents ioc_h (ring ioc2) = 0x00 # [0x05, 0x00, 0x08, 0x01, 0x02, 0x03, 0x04, 0xE9] \<and>
   valid_frame ioc_h [0x05, 0x00, 0x08, 0x01, 0x02, 0x03, 0x04, 0xE9] \<and>
   detect_fails ioc_h (0x00 # [0x05, 0x00, 0x08, 0x01, 0x02, 0x03, 0x04, 0xE9]) \<and>
   remains ioc2 \<le> 1 + int (length [0x05, 0x00, 0x08, 0x01, 0x02, 0x03, 0x04, 0xE9 :: u8]) \<and>
   cbc_unpack_link ioc_h ioc2 = Some (accept_frame ioc_h (drop_one ioc_h ioc2)) \<and>
   rx_queue (accept_frame ioc_h (drop_one ioc_h ioc2)) =
     [\<lparr>srv_len = 4, link_len = 8, req_id = 0, rtype = CBC_REQ_T_PROT ioc_h,
       req_buf = [0x05, 0x00, 0x08, 0x01, 0x02, 0x03, 0x04, 0xE9]\<rparr>] \<and>
   ring_avalids ioc_h (ring ioc2) = 9 \<and>
   ring_avalids ioc_h (ring (accept_frame ioc_h (drop_one ioc_h ioc2))) = 0 \<and>
   cbc_unpack_body ioc_h ioc2 = Continue (drop_one ioc_h ioc2) \<and>
   ring_avalids ioc_h (ring (drop_one ioc_h ioc2)) = ring_avalids ioc_h (ring ioc2) - 1 \<and>
   (\<exists>e'. cbc_unpack_link ioc_h ioc2 = Some e')"
proof -
  let ?fr = "[0x05, 0x00, 0x08, 0x01, 0x02, 0x03, 0x04, 0xE9] :: u8 list"
  have h1: "CBC_RING_BUFFER_SIZE ioc_h = 2 ^ 8" by code_simp
  have h2: "0 < CBC_MIN_FRAME_SIZE ioc_h" by code_simp
  have h3: "0 < CBC_LINK_HDR_SIZE ioc_h + CBC_ADDR_HDR_SIZE ioc_h" by code_simp
  have a: "ring_ok ioc_h (ring ioc2)" by code_simp
  have b: "ring_contents ioc_h (ring ioc2) = 0x00 # ?fr" by code_simp
  have c: "valid_frame ioc_h ?fr" by code_simp
  have d: "detect_fails ioc_h (0x00 # ?fr)" by code_simp
  have e: "remains ioc2 \<le> 1 + int (length ?fr)" by code_simp
  have f: "cbc_unpack_body ioc_h ioc2 = Continue (drop_one ioc_h ioc2)" by code_simp
  have s: "CBC_LINK_HDR_SIZE ioc_h = 3" "CBC_ADDR_HDR_SIZE ioc_h = 1" "rx_queue ioc2 = []"
    by code_simp+
  note T = resynchronization [OF h1 h2 h3, of ioc2 "0x00" ?fr ioc2]
  show ?thesis
    using T a b c d e f h1 h2 h3 by (simp add: s)
qed


subsection \<open>The round trip\<close>

lemma and_mask_nat:
  "(x::nat) AND 1 = x mod 2" "(x::nat) AND 3 = x mod 4" "(x::nat) AND 7 = x mod 8"
  "(x::nat) AND 31 = x mod 32"
  using take_bit_eq_mask [of 1 x] take_bit_eq_mask [of 2 x] take_bit_eq_mask [of 3 x]
    take_bit_eq_mask [of 5 x]
  by (simp_all add: mask_eq_exp_minus_1 take_bit_eq_mod)

lemma and_mask_int: "0 \<le> (k::int) \<Longrightarrow> k < 32 \<Longrightarrow> k AND 31 = k"
  using take_bit_eq_mask [of 5 k] by (simp add: mask_eq_exp_minus_1 take_bit_eq_mod)

lemma sdiv_nonneg: "0 \<le> (a::int) \<Longrightarrow> 0 < b \<Longrightarrow> a sdiv b = a div b"
  by (cases "a = 0") (simp_all add: signed_divide_int_def sgn_if)

lemma fold_fill_length: "length (fold (\<lambda>i b. b[i := v]) js xs) = length xs"
  by (induction js arbitrary: xs) simp_all

lemma fold_fill_nth:
  "j < length xs \<Longrightarrow> fold (\<lambda>i b. b[i := v]) js xs ! j = (if j \<in> set js then v else xs ! j)"
  by (induction js arbitrary: xs) (auto simp: nth_list_update)

lemma fill_padding_eq:
  assumes "CBC_CHKSUM_SIZE K = 1"
  shows "fst (cbc_fill_padding K buf (n + 4) 4) = padded_len n"
    and "length (snd (cbc_fill_padding K buf (n + 4) 4)) = length buf"
    and "j < length buf \<Longrightarrow> snd (cbc_fill_padding K buf (n + 4) 4) ! j =
           (if n + 3 \<le> j \<and> j < padded_len n \<and> n mod 4 \<noteq> 0 then 0xFF else buf ! j)"
proof -
  have m: "(n + 4) mod 4 = n mod 4" by simp
  show "fst (cbc_fill_padding K buf (n + 4) 4) = padded_len n"
    unfolding cbc_fill_padding_def Let_def m padded_len_def by (simp split: if_splits) presburger
  show "length (snd (cbc_fill_padding K buf (n + 4) 4)) = length buf"
    by (simp add: cbc_fill_padding_def Let_def fold_fill_length)
  have p: "n + 4 + 4 - n mod 4 = padded_len n" if "n mod 4 \<noteq> 0"
    using that unfolding padded_len_def by presburger
  show "snd (cbc_fill_padding K buf (n + 4) 4) ! j =
           (if n + 3 \<le> j \<and> j < padded_len n \<and> n mod 4 \<noteq> 0 then 0xFF else buf ! j)"
    if "j < length buf"
    using that p by (simp add: cbc_fill_padding_def Let_def m fold_fill_nth assms)
qed

lemma pack_link_eq:
  assumes lay: "frame_layout K" and n: "srv_len (req w) = int n" "1 \<le> n" "n \<le> CBC_MAX_SERVICE_SIZE K"
    and len: "length (req_buf (req w)) = CBC_MAX_FRAME_SIZE K"
  shows "cbc_pack_link K w =
    (let buf1 = snd (cbc_fill_padding K (req_buf (req w)) (n + 4) 4);
         b5 = buf1[0 := of_nat (CBC_SOF_VALUE K), 1 := els_byte K n (tx_seq_counter w)];
         b6 = b5[padded_len n - 1 := ucast (cbc_cal_chksum (take (padded_len n - 1) b5) AND 0xFF)]
     in w\<lparr>req := (req w)\<lparr>req_buf := b6, link_len := int (padded_len n)\<rparr>,
          tx_seq_counter := (tx_seq_counter w + 1) AND 3\<rparr>)"
proof -
  from lay have c: "CBC_SOF_POS K = 0" "CBC_ELS_POS K = 1" "CBC_EXT_OFFSET K = 7" "CBC_EXT_MASK K = 1"
    "CBC_LEN_OFFSET K = 2" "CBC_LEN_MASK K = 31" "CBC_SEQ_OFFSET K = 0" "CBC_SEQ_MASK K = 3"
    "CBC_LEN_UNIT K = 4" "CBC_GRANULARITY K = 4" "CBC_LINK_HDR_SIZE K = 3" "CBC_ADDR_HDR_SIZE K = 1"
    "CBC_CHKSUM_SIZE K = 1"
    and ms: "CBC_MAX_SERVICE_SIZE K \<le> 128" and mf: "CBC_MAX_SERVICE_SIZE K + 7 \<le> CBC_MAX_FRAME_SIZE K"
    by (simp_all add: frame_layout_def)
  obtain buf1 where fp: "cbc_fill_padding K (req_buf (req w)) (n + 4) 4 = (padded_len n, buf1)"
    using fill_padding_eq(1) [OF c(13), of "req_buf (req w)" n]
    by (cases "cbc_fill_padding K (req_buf (req w)) (n + 4) 4") simp
  have l1: "length buf1 = CBC_MAX_FRAME_SIZE K"
    using fill_padding_eq(2) [OF c(13), of "req_buf (req w)" n] fp len by simp
  have big: "1 < length buf1" using l1 mf n by simp
  have nl: "nat (4 + int n) = n + 4" by simp
  have "(int n - 1) sdiv 4 = (int n - 1) div 4" using n(2) by (simp add: sdiv_nonneg)
  also have "\<dots> = int ((n - 1) div 4)" using n(2) by (simp add: zdiv_int of_nat_diff)
  finally have e: "(int n - 1) sdiv 4 = int ((n - 1) div 4)" .
  have "(n - 1) div 4 < 32" using n ms by simp
  then have "int ((n - 1) div 4) AND 31 = int ((n - 1) div 4)" by (intro and_mask_int) simp_all
  then have px: "push_bit 2 (((int n - 1) sdiv 4) AND 31) = push_bit 2 (int ((n - 1) div 4))"
    by (simp only: e)
  show ?thesis
    using n(3) big px
    by (simp add: cbc_pack_link_def c n(1) nl fp Let_def els_byte_def)
qed

lemma els_decode_all:
  "\<forall>x \<in> set [0..<32]. \<forall>q \<in> set [0..<4]. \<forall>e \<in> set [0..<2].
     drop_bit 2 (unat (((of_nat (push_bit 7 e) :: u8) OR of_int (push_bit 2 (int x))) OR
                       of_nat (push_bit 0 q))) AND 0x1F = (x::nat)"
  by code_simp

lemma mux_decode_all:
  "\<forall>c \<in> set [0..<32]. \<forall>q \<in> set [0..<8].
     drop_bit 3 (unat ((of_nat (push_bit 3 c) :: u8) OR of_nat (push_bit 0 q))) AND 0x1F = (c::nat)"
  by code_simp

lemma els_decode:
  assumes "(n - 1) div 4 < 32"
  shows "drop_bit 2 (unat (els_byte K n sq)) AND 0x1F = (n - 1) div 4"
proof -
  have "(n - 1) div 4 \<in> set [0..<32]" "sq mod 4 \<in> set [0..<4]" "CBC_EXT_VALUE K mod 2 \<in> set [0..<2]"
    using assms by simp_all
  with els_decode_all show ?thesis unfolding els_byte_def and_mask_nat by blast
qed

lemma mux_decode:
  assumes "c < 32"
  shows "drop_bit 3 (unat (addr_byte K c)) AND 0x1F = c"
proof -
  have "c \<in> set [0..<32]" "q mod 8 \<in> set [0..<8]" for q using assms by simp_all
  with mux_decode_all show ?thesis unfolding addr_byte_def and_mask_nat by blast
qed

lemma unat_of_nat_u8: "n < 256 \<Longrightarrow> unat (of_nat n :: u8) = n"
  by (simp add: unsigned_of_nat take_bit_nat_eq_self)

lemma pack_address_eq:
  assumes lay: "frame_layout K" and c: "req_id (req w) < 32" and len: "2 < length (req_buf (req w))"
  shows "cbc_pack_address K w = set_buf w 2 (addr_byte K (req_id (req w)))"
proof -
  from lay have k: "CBC_ADDR_POS K = 2" "CBC_MUX_OFFSET K = 3" "CBC_MUX_MASK K = 31"
    "CBC_PRIO_OFFSET K = 0" "CBC_PRIO_MASK K = 7" by (simp_all add: frame_layout_def)
  have u: "unat (of_nat (req_id (req w)) :: u8) = req_id (req w)" using c by (simp add: unat_of_nat_u8)
  have m: "req_id (req w) mod 32 = req_id (req w)" using c by simp
  show ?thesis
    using len unfolding cbc_pack_address_def Let_def k u and_mask_nat m addr_byte_def
    by simp
qed

lemma send_pkt_frame:
  "link_len (req w) = 0 \<Longrightarrow>
   xmit_log (cbc_send_pkt K w) = xmit_log w @ [(IOC_VIRTUAL_UART K, sent_frame K w)]"
  by (simp add: cbc_send_pkt_def Let_def ioc_ch_xmit_def sent_frame_def pack_link_fields
        pack_address_fields split: prod.splits)

lemma padded_len_bounds: "1 \<le> n \<Longrightarrow> n + 4 \<le> padded_len n \<and> padded_len n \<le> n + 7 \<and>
    padded_len n = 4 * ((n - 1) div 4) + 8 \<and> (n mod 4 = 0 \<longrightarrow> padded_len n = n + 4)"
  unfolding padded_len_def by presburger

lemma sent_frame_facts:
  assumes lay: "frame_layout K" and n: "srv_len (req w) = int n" "1 \<le> n" "n \<le> CBC_MAX_SERVICE_SIZE K"
    and len: "length (req_buf (req w)) = CBC_MAX_FRAME_SIZE K" and c: "req_id (req w) < 32"
  shows "length (sent_frame K w) = padded_len n"
    and "sent_frame K w ! 0 = of_nat (CBC_SOF_VALUE K)"
    and "sent_frame K w ! 1 = els_byte K n (tx_seq_counter w)"
    and "sent_frame K w ! 2 = addr_byte K (req_id (req w))"
    and "\<And>j. 3 \<le> j \<Longrightarrow> j < n + 3 \<Longrightarrow> sent_frame K w ! j = req_buf (req w) ! j"
    and "\<And>j. n + 3 \<le> j \<Longrightarrow> j < padded_len n - 1 \<Longrightarrow> sent_frame K w ! j = 0xFF"
    and "unat (sent_frame K w ! (padded_len n - 1)) =
           byte_sum (take (padded_len n - 1) (sent_frame K w)) mod 256"
proof -
  from lay have mf: "CBC_MAX_SERVICE_SIZE K + 7 \<le> CBC_MAX_FRAME_SIZE K" and ck: "CBC_CHKSUM_SIZE K = 1"
    by (simp_all add: frame_layout_def)
  let ?L = "padded_len n"
  note pb = padded_len_bounds [OF n(2)]
  have Lb: "8 \<le> ?L" "?L \<le> length (req_buf (req w))" using pb n mf len by linarith+
  let ?w1 = "set_buf w 2 (addr_byte K (req_id (req w)))"
  have pa: "cbc_pack_address K w = ?w1"
    using pack_address_eq [OF lay c] Lb by simp
  let ?buf0 = "(req_buf (req w))[2 := addr_byte K (req_id (req w))]"
  define buf1 where "buf1 = snd (cbc_fill_padding K ?buf0 (n + 4) 4)"
  define b5 where "b5 = buf1[0 := of_nat (CBC_SOF_VALUE K), 1 := els_byte K n (tx_seq_counter w)]"
  define b6 where "b6 = b5[?L - 1 := ucast (cbc_cal_chksum (take (?L - 1) b5) AND 0xFF)]"
  have l0: "length ?buf0 = CBC_MAX_FRAME_SIZE K" using len by simp
  have pl: "cbc_pack_link K ?w1 = ?w1\<lparr>req := (req ?w1)\<lparr>req_buf := b6, link_len := int ?L\<rparr>,
          tx_seq_counter := (tx_seq_counter ?w1 + 1) AND 3\<rparr>"
    using pack_link_eq [OF lay, of ?w1 n] n len
    by (simp add: Let_def buf1_def b5_def b6_def)
  have fr: "sent_frame K w = take ?L b6"
    by (simp add: sent_frame_def Let_def pa pl)
  have l1: "length buf1 = length (req_buf (req w))"
    unfolding buf1_def using fill_padding_eq(2) [OF ck, of ?buf0 n] by simp
  have l6: "length b6 = length (req_buf (req w))" by (simp add: b6_def b5_def l1)
  have g: "0 < length buf1" "1 < length buf1" "2 < length buf1" "?L - 1 < length buf1"
    "1 < ?L" "2 < ?L" "0 < ?L" "?L - 1 \<noteq> 0" "?L - 1 \<noteq> 1" "?L - 1 \<noteq> 2" "?L - 1 < ?L"
    using Lb l1 by linarith+
  have b1: "buf1 ! j = (if n + 3 \<le> j \<and> j < ?L \<and> n mod 4 \<noteq> 0 then 0xFF else ?buf0 ! j)"
    if "j < length (req_buf (req w))" for j
    unfolding buf1_def using fill_padding_eq(3) [OF ck, of j ?buf0 n] that by simp
  show "length (sent_frame K w) = ?L" using Lb by (simp add: fr l6)
  show "sent_frame K w ! 0 = of_nat (CBC_SOF_VALUE K)"
    using g by (simp add: fr b6_def b5_def nth_list_update)
  show "sent_frame K w ! 1 = els_byte K n (tx_seq_counter w)"
    using g by (simp add: fr b6_def b5_def nth_list_update)
  show "sent_frame K w ! 2 = addr_byte K (req_id (req w))"
    using g Lb pb b1 [of 2] by (simp add: fr b6_def b5_def nth_list_update)
  show "sent_frame K w ! j = req_buf (req w) ! j" if "3 \<le> j" "j < n + 3" for j
    using g Lb pb b1 [of j] that by (simp add: fr b6_def b5_def nth_list_update)
  show "sent_frame K w ! j = 0xFF" if "n + 3 \<le> j" "j < ?L - 1" for j
  proof -
    have "n mod 4 \<noteq> 0" using that pb by auto
    then show ?thesis using g Lb pb b1 [of j] that by (simp add: fr b6_def b5_def nth_list_update)
  qed
  have "take (?L - 1) (sent_frame K w) = take (?L - 1) b5"
    by (simp add: fr b6_def min_def)
  moreover have "sent_frame K w ! (?L - 1) = ucast (cbc_cal_chksum (take (?L - 1) b5) AND 0xFF)"
    using g by (simp add: fr b6_def b5_def)
  moreover have "unat (ucast (x AND 0xFF) :: u8) = unat (x AND 0xFF)" for x :: u16
  proof -
    have "unat (x AND 0xFF) \<le> unat (0xFF :: u16)"
      by (rule word_and_le1 [THEN word_le_nat_alt [THEN iffD1]])
    then show ?thesis by (simp add: unsigned_ucast_eq take_bit_nat_eq_self)
  qed
  ultimately show "unat (sent_frame K w ! (?L - 1)) =
           byte_sum (take (?L - 1) (sent_frame K w)) mod 256"
    by (simp add: cal_chksum_low)
qed

lemma sent_frame_valid:
  assumes lay: "frame_layout K" and n: "srv_len (req w) = int n" "1 \<le> n" "n \<le> CBC_MAX_SERVICE_SIZE K"
    and len: "length (req_buf (req w)) = CBC_MAX_FRAME_SIZE K" and c: "req_id (req w) < 32"
  shows "valid_frame K (sent_frame K w)"
proof -
  from lay have k: "CBC_ELS_POS K = 1" "CBC_LEN_OFFSET K = 2" "CBC_LEN_MASK K = 31"
    "CBC_LINK_HDR_SIZE K = 3" "CBC_ADDR_HDR_SIZE K = 1"
    and sof: "CBC_SOF_VALUE K < 256" and mn: "CBC_MIN_FRAME_SIZE K \<le> 8"
    and ms: "CBC_MAX_SERVICE_SIZE K \<le> 128" and mf: "CBC_MAX_SERVICE_SIZE K + 7 \<le> CBC_MAX_FRAME_SIZE K"
    by (simp_all add: frame_layout_def)
  let ?fr = "sent_frame K w"
  let ?L = "padded_len n"
  let ?x = "(n - 1) div 4"
  note F = sent_frame_facts [OF lay n len c]
  note pb = padded_len_bounds [OF n(2)]
  have x32: "?x < 32" using n ms by simp
  have dec: "drop_bit 2 (unat (?fr ! 1)) AND 31 = ?x"
    unfolding F(3) by (rule els_decode [OF x32])
  have e1: "(of_nat ?x + 1) * 4 = (of_nat (4 * ?x + 4) :: u8)" by (simp add: algebra_simps)
  have "unat (of_nat (4 * ?x + 4) :: u8) = 4 * ?x + 4"
    using x32 by (intro unat_of_nat_u8) simp
  then have e2: "uint (of_nat (4 * ?x + 4) :: u8) = int (4 * ?x + 4)"
    by (simp only: uint_nat)
  have e3: "uint ((of_nat ?x + 1) * 4 :: u8) = int (4 * ?x + 4)" unfolding e1 by (rule e2)
  have "frame_len_of K ?fr = int (4 * ?x + 4) + int 3 + int 1"
    unfolding frame_len_of_def k dec e3 ..
  then have fl: "frame_len_of K ?fr = int ?L" using pb by simp
  have nd: "nat (int ?L - 1) = ?L - 1" by simp
  have ck: "chksum_ok K ?fr"
    using F(7) unfolding chksum_ok_def fl nd by simp
  have "unat (?fr ! 0) = CBC_SOF_VALUE K" using sof by (simp add: F(2) unat_of_nat_u8)
  moreover have "CBC_ELS_POS K < length ?fr" using pb by (simp add: F(1) k)
  moreover have "CBC_MIN_FRAME_SIZE K \<le> length ?fr" using pb mn by (simp add: F(1))
  moreover have "length ?fr \<le> CBC_MAX_FRAME_SIZE K" using pb n mf by (simp add: F(1))
  ultimately show ?thesis using fl ck by (simp add: valid_frame_def F(1))
qed

lemma send_pkt_id: "req_id (req (cbc_send_pkt K w)) = req_id (req w)"
  by (simp add: cbc_send_pkt_def Let_def ioc_ch_xmit_def pack_link_fields pack_address_fields
        split: prod.splits)

lemma update_heartbeat_id: "req_id (req (cbc_update_heartbeat K w cmd sa)) = req_id (req w)"
  by (simp add: cbc_update_heartbeat_def Let_def)

lemma update_wakeup_reason_id:
  "req_id (req (cbc_update_wakeup_reason K w r)) = IOC_NATIVE_LFCC K"
  by (simp add: cbc_update_wakeup_reason_def Let_def send_pkt_id split: prod.splits)

lemma process_lifecycle_id:
  "req_id (req (cbc_process_lifecycle K w)) =
     (if unat (get_buf w (CBC_SRV_POS K)) = CBC_SC_WK_RSN K then IOC_NATIVE_LFCC K
      else req_id (req w))"
  by (simp add: cbc_process_lifecycle_def Let_def update_wakeup_reason_id update_heartbeat_id)

lemma fold_copy_id:
  "req_id (req (fold (\<lambda>j w. set_buf w (a j) (get_buf w (b j))) js w)) = req_id (req w)"
  by (induction js arbitrary: w) simp_all

lemma forward_body_id:
  "req_id (req (fst (snd (cbc_forward_body K (w, offset, num, valids))))) = req_id (req w)"
  by (simp add: cbc_forward_body_def Let_def fold_copy_id split: prod.splits)

lemma forward_loop_id:
  "req_id (req (fst (snd (cbc_forward_loop K i st)))) = req_id (req (fst st))"
proof (induction K i st rule: cbc_forward_loop.induct)
  case (1 K i st)
  obtain w offset num valids where st: "st = (w, offset, num, valids)" by (cases st) auto
  obtain stop st' where b: "cbc_forward_body K st = (stop, st')"
    by (cases "cbc_forward_body K st") auto
  have id': "req_id (req (fst st')) = req_id (req w)"
    using forward_body_id [of K w offset num valids] b by (simp add: st)
  show ?case
  proof (cases "i < uint (get_buf (fst st) (CBC_PAYLOAD_POS K))")
    case False
    then show ?thesis by (subst cbc_forward_loop.simps) simp
  next
    case True
    show ?thesis
    proof (cases stop)
      case True
      with \<open>i < uint (get_buf (fst st) (CBC_PAYLOAD_POS K))\<close> b id' show ?thesis
        by (subst cbc_forward_loop.simps) (simp add: st)
    next
      case False
      with True b id' "1.IH" [of stop st'] show ?thesis
        by (subst cbc_forward_loop.simps) (simp add: st)
    qed
  qed
qed

lemma forward_signals_id: "req_id (req (cbc_forward_signals K w)) = req_id (req w)"
proof -
  obtain stop w' offset num valids
    where l: "cbc_forward_loop K 0 (w, 1, 0, 1) = (stop, w', offset, num, valids)"
    by (cases "cbc_forward_loop K 0 (w, 1, 0, 1)") auto
  have "req_id (req w') = req_id (req w)"
    using forward_loop_id [of K 0 "(w, 1, 0, 1)"] l by simp
  then show ?thesis
    by (cases stop) (simp_all add: cbc_forward_signals_def l Let_def send_pkt_id)
qed

lemma fold_inval_id:
  assumes "\<And>j w. req_id (req (F j w)) = req_id (req w)"
  shows "req_id (req (fold F js w)) = req_id (req w)"
  by (induction js arbitrary: w) (simp_all add: assms)

lemma set_invalidation_id: "req_id (req (cbc_set_invalidation K w t)) = req_id (req w)"
  unfolding cbc_set_invalidation_def Let_def
  by (simp add: fold_inval_id)

lemma process_signal_id: "req_id (req (cbc_process_signal K w)) = req_id (req w)"
  by (simp add: cbc_process_signal_def Let_def send_pkt_id forward_signals_id set_invalidation_id)

lemma rx_handler_id:
  assumes "rtype (req w) = CBC_REQ_T_PROT K"
  shows "req_id (req (cbc_rx_handler K w)) =
     unat (of_nat (drop_bit (CBC_MUX_OFFSET K) (unat (get_buf w (CBC_ADDR_POS K)))
                   AND CBC_MUX_MASK K) :: u8)"
  using assms
  by (simp add: cbc_rx_handler_def Let_def process_lifecycle_id process_signal_id send_pkt_id)

text \<open>
  Claim C1. Under the frame layout of the protocol and a ring capacity that is a power
  of two: a request that is not yet framed (\<open>link_len = 0\<close>), with a channel id
  \<open>c\<close> that fits the multiplexer field, the command byte \<open>s\<close>, the payload \<open>p\<close>
  and the service length \<open>1 + |p|\<close> not exceeding the maximum service size, is sent
  by \<open>cbc_send_pkt\<close> as one frame; absorbed by an empty ring and deframed by
  \<open>cbc_unpack_link\<close>, the frame yields exactly one decoded request and leaves the
  ring empty. The rx dispatch gives the decoded request the channel id \<open>c\<close>; its
  command byte is \<open>s\<close>; its payload starts with \<open>p\<close>, followed by padding bytes
  0xFF up to the checksum; and its service length is the padded length less the two
  leading bytes, the address byte and the checksum.
\<close>

theorem frame_round_trip:
  assumes lay: "frame_layout K" and pw: "CBC_RING_BUFFER_SIZE K = 2 ^ k"
    and w: "link_len (req w) = 0" "srv_len (req w) = 1 + int (length p)"
           "1 + length p \<le> CBC_MAX_SERVICE_SIZE K"
           "length (req_buf (req w)) = CBC_MAX_FRAME_SIZE K"
           "get_buf w (CBC_SRV_POS K) = s"
           "take (length p) (drop (CBC_PAYLOAD_POS K) (req_buf (req w))) = p"
           "req_id (req w) = c" "c \<le> CBC_MUX_MASK K"
    and d: "ring_ok K (ring d)" "ring_avalids K (ring d) = 0" "remains d = 0"
  shows "\<exists>fr r' d'.
      xmit_log (cbc_send_pkt K w) = xmit_log w @ [(IOC_VIRTUAL_UART K, fr)] \<and>
      cbc_copy_to_ring K fr (ring d) = (0, r', []) \<and>
      cbc_unpack_link K (d\<lparr>ring := r'\<rparr>) = Some d' \<and>
      rx_queue d' = rx_queue d @ [decoded_request K fr] \<and>
      ring_avalids K (ring d') = 0 \<and>
      (\<forall>w2. req_id (req (cbc_rx_handler K (w2\<lparr>req := decoded_request K fr\<rparr>))) = c) \<and>
      req_buf (decoded_request K fr) ! CBC_SRV_POS K = s \<and>
      take (length p) (drop (CBC_PAYLOAD_POS K) (req_buf (decoded_request K fr))) = p \<and>
      (\<forall>j. CBC_PAYLOAD_POS K + length p \<le> j \<and> j < length fr - 1 \<longrightarrow> fr ! j = 0xFF) \<and>
      length fr = padded_len (1 + length p) \<and>
      srv_len (decoded_request K fr) = int (padded_len (1 + length p)) - 4"
proof -
  from lay have k: "CBC_ADDR_POS K = 2" "CBC_SRV_POS K = 3" "CBC_PAYLOAD_POS K = 4"
    "CBC_MUX_OFFSET K = 3" "CBC_MUX_MASK K = 31" "CBC_LINK_HDR_SIZE K = 3" "CBC_ADDR_HDR_SIZE K = 1"
    and mn: "0 < CBC_MIN_FRAME_SIZE K"
    and mf: "CBC_MAX_SERVICE_SIZE K + 7 \<le> CBC_MAX_FRAME_SIZE K"
    and rg: "CBC_MAX_FRAME_SIZE K < CBC_RING_BUFFER_SIZE K"
    by (simp_all add: frame_layout_def)
  define n where "n = 1 + length p"
  let ?fr = "sent_frame K w"
  let ?L = "padded_len n"
  have n: "srv_len (req w) = int n" "1 \<le> n" "n \<le> CBC_MAX_SERVICE_SIZE K"
    using w(2,3) by (simp_all add: n_def)
  have c32: "req_id (req w) < 32" using w(7,8) k(5) by simp
  note F = sent_frame_facts [OF lay n w(4) c32]
  note V = sent_frame_valid [OF lay n w(4) c32]
  note pb = padded_len_bounds [OF n(2)]
  have Lb: "?L \<le> CBC_MAX_FRAME_SIZE K" using pb n(3) mf by linarith
  \<comment> \<open>sending\<close>
  have x: "xmit_log (cbc_send_pkt K w) = xmit_log w @ [(IOC_VIRTUAL_UART K, ?fr)]"
    by (rule send_pkt_frame [OF w(1)])
  \<comment> \<open>absorbing the frame into the empty ring\<close>
  have e: "ring_contents K (ring d) = []" by (simp add: ring_contents_def d(2))
  obtain rc r' lg where cp: "cbc_copy_to_ring K ?fr (ring d) = (rc, r', lg)"
    by (cases "cbc_copy_to_ring K ?fr (ring d)") auto
  have fits: "length ?fr \<le> CBC_RING_BUFFER_SIZE K - 1" using Lb rg by (simp add: F(1))
  from copy_to_ring_contents [OF pw d(1), of ?fr] cp fits
  have ok': "ring_ok K r'" and c': "ring_contents K r' = ?fr" and rc: "rc = 0" and lg: "lg = []"
    by (simp_all add: e)
  \<comment> \<open>deframing\<close>
  let ?d1 = "d\<lparr>ring := r'\<rparr>"
  have ok1: "ring_ok K (ring ?d1)" using ok' by simp
  have c1: "ring_contents K (ring ?d1) = ?fr" using c' by simp
  have rem1: "remains ?d1 \<le> ring_avalids K (ring ?d1)"
    using avalids_bounds [OF ok'] by (simp add: d(3))
  note U = unpack_valid_frame [OF ok1 pw c1 V rem1 mn]
  have q: "rx_queue (accept_frame K ?d1) = rx_queue d @ [decoded_request K ?fr]"
    using U(2) U(6) by (simp add: decoded_request_def)
  \<comment> \<open>dispatch\<close>
  have id': "req_id (req (cbc_rx_handler K (w2\<lparr>req := decoded_request K ?fr\<rparr>))) = c" for w2
  proof -
    have "rtype (req (w2\<lparr>req := decoded_request K ?fr\<rparr>)) = CBC_REQ_T_PROT K"
      by (simp add: decoded_request_def)
    from rx_handler_id [OF this] have "req_id (req (cbc_rx_handler K (w2\<lparr>req := decoded_request K ?fr\<rparr>))) =
      unat (of_nat (drop_bit 3 (unat (?fr ! 2)) AND 31) :: u8)"
      by (simp add: k decoded_request_def)
    also have "\<dots> = unat (of_nat c :: u8)"
      using mux_decode [OF c32, of K] by (simp add: F(4) w(7))
    also have "\<dots> = c" using c32 w(7) by (intro unat_of_nat_u8) simp
    finally show ?thesis .
  qed
  \<comment> \<open>content\<close>
  have s: "?fr ! 3 = s" using F(5) [of 3] n(2) w(5) by (simp add: k)
  have lp: "4 + length p \<le> length (req_buf (req w))" "4 + length p \<le> length ?fr"
    using pb n(3) mf w(4) by (simp_all add: F(1) n_def)
  have pj: "(take (length p) (drop 4 ?fr)) ! i = (take (length p) (drop 4 (req_buf (req w)))) ! i"
    if "i < length p" for i
    using that lp F(5) [of "4 + i"] by (simp add: n_def)
  have l1: "length (take (length p) (drop 4 ?fr)) = length p" using lp(2) by simp
  have l2: "length (take (length p) (drop 4 (req_buf (req w)))) = length p" using lp(1) by simp
  have pl: "take (length p) (drop 4 ?fr) = take (length p) (drop 4 (req_buf (req w)))"
  proof (rule nth_equalityI)
    show "length (take (length p) (drop 4 ?fr)) = length (take (length p) (drop 4 (req_buf (req w))))"
      by (simp only: l1 l2)
  next
    fix i assume "i < length (take (length p) (drop 4 ?fr))"
    hence "i < length p" by (simp only: l1)
    thus "take (length p) (drop 4 ?fr) ! i = take (length p) (drop 4 (req_buf (req w))) ! i"
      by (rule pj)
  qed
  have pp: "take (length p) (drop 4 ?fr) = p" using pl w(6) by (simp add: k)
  have pad: "?fr ! j = 0xFF" if "4 + length p \<le> j" "j < length ?fr - 1" for j
    using F(6) [of j] that by (simp add: F(1) n_def)
  have sl: "srv_len (decoded_request K ?fr) = int ?L - 4"
    by (simp add: decoded_request_def k F(1))
  show ?thesis
    apply (rule exI [of _ ?fr], rule exI [of _ r'], rule exI [of _ "accept_frame K ?d1"])
    using x cp rc lg U(1) q U(4) id' s pp pad sl F(1)
    by (simp add: k decoded_request_def n_def)
qed

theorem frame_round_trip_witness:
  "frame_layout ioc_h \<and> CBC_RING_BUFFER_SIZE ioc_h = 2 ^ 8 \<and>
   link_len (req w1) = 0 \<and> srv_len (req w1) = 1 + int (length [0xAA :: u8]) \<and>
   1 + length [0xAA :: u8] \<le> CBC_MAX_SERVICE_SIZE ioc_h \<and>
   length (req_buf (req w1)) = CBC_MAX_FRAME_SIZE ioc_h \<and>
   get_buf w1 (CBC_SRV_POS ioc_h) = 0x02 \<and>
   take (length [0xAA :: u8]) (drop (CBC_PAYLOAD_POS ioc_h) (req_buf (req w1))) = [0xAA] \<and>
   req_id (req w1) = 2 \<and> 2 \<le> CBC_MUX_MASK ioc_h \<and>
   ring_ok ioc_h (ring ioc0) \<and> ring_avalids ioc_h (ring ioc0) = 0 \<and> remains ioc0 = 0 \<and>
   xmit_log (cbc_send_pkt ioc_h w1) =
     [(IOC_VIRTUAL_UART ioc_h, [0x05, 0x00, 0x16, 0x02, 0xAA, 0xFF, 0xFF, 0x3B])] \<and>
   (\<exists>r' d'.
      cbc_copy_to_ring ioc_h [0x05, 0x00, 0x16, 0x02, 0xAA, 0xFF, 0xFF, 0x3B] (ring ioc0) =
        (0, r', []) \<and>
      cbc_unpack_link ioc_h (ioc0\<lparr>ring := r'\<rparr>) = Some d' \<and>
      rx_queue d' =
        [decoded_request ioc_h [0x05, 0x00, 0x16, 0x02, 0xAA, 0xFF, 0xFF, 0x3B]] \<and>
      ring_avalids ioc_h (ring d') = 0) \<and>
   req_id (req (cbc_rx_handler ioc_h ((tx0 [])\<lparr>req :=
     decoded_request ioc_h [0x05, 0x00, 0x16, 0x02, 0xAA, 0xFF, 0xFF, 0x3B]\<rparr>))) = 2 \<and>
   req_buf (decoded_request ioc_h [0x05, 0x00, 0x16, 0x02, 0xAA, 0xFF, 0xFF, 0x3B]) !
     CBC_SRV_POS ioc_h = 0x02 \<and>
   take (length [0xAA :: u8]) (drop (CBC_PAYLOAD_POS ioc_h)
     (req_buf (decoded_request ioc_h [0x05, 0x00, 0x16, 0x02, 0xAA, 0xFF, 0xFF, 0x3B]))) = [0xAA] \<and>
   srv_len (decoded_request ioc_h [0x05, 0x00, 0x16, 0x02, 0xAA, 0xFF, 0xFF, 0x3B]) =
     int (padded_len (1 + length [0xAA :: u8])) - 4"
proof -
  let ?fr = "[0x05, 0x00, 0x16, 0x02, 0xAA, 0xFF, 0xFF, 0x3B] :: u8 list"
  let ?p = "[0xAA] :: u8 list"
  have h1: "frame_layout ioc_h" by code_simp
  have h2: "CBC_RING_BUFFER_SIZE ioc_h = 2 ^ 8" by code_simp
  have h3: "link_len (req w1) = 0" by code_simp
  have h4: "srv_len (req w1) = 1 + int (length ?p)" by code_simp
  have h5: "1 + length ?p \<le> CBC_MAX_SERVICE_SIZE ioc_h" by code_simp
  have h6: "length (req_buf (req w1)) = CBC_MAX_FRAME_SIZE ioc_h" by code_simp
  have h7: "get_buf w1 (CBC_SRV_POS ioc_h) = 0x02" by code_simp
  have h8: "take (length ?p) (drop (CBC_PAYLOAD_POS ioc_h) (req_buf (req w1))) = ?p"
    by code_simp
  have h9: "req_id (req w1) = 2" by code_simp
  have h10: "2 \<le> CBC_MUX_MASK ioc_h" by code_simp
  have h11: "ring_ok ioc_h (ring ioc0)" by code_simp
  have h12: "ring_avalids ioc_h (ring ioc0) = 0" by code_simp
  have h13: "remains ioc0 = 0" by code_simp
  have x: "xmit_log (cbc_send_pkt ioc_h w1) = [(IOC_VIRTUAL_UART ioc_h, ?fr)]" by code_simp
  have e: "xmit_log w1 = []" "rx_queue ioc0 = []" by code_simp+
  from frame_round_trip [OF h1 h2 h3 h4 h5 h6 h7 h8 h9 h10 h11 h12 h13]
  obtain fr r' d' where
    T: "xmit_log (cbc_send_pkt ioc_h w1) = xmit_log w1 @ [(IOC_VIRTUAL_UART ioc_h, fr)]"
       "cbc_copy_to_ring ioc_h fr (ring ioc0) = (0, r', [])"
       "cbc_unpack_link ioc_h (ioc0\<lparr>ring := r'\<rparr>) = Some d'"
       "rx_queue d' = rx_queue ioc0 @ [decoded_request ioc_h fr]"
       "ring_avalids ioc_h (ring d') = 0"
       "\<forall>w2. req_id (req (cbc_rx_handler ioc_h (w2\<lparr>req := decoded_request ioc_h fr\<rparr>))) = 2"
       "req_buf (decoded_request ioc_h fr) ! CBC_SRV_POS ioc_h = 0x02"
       "take (length ?p) (drop (CBC_PAYLOAD_POS ioc_h) (req_buf (decoded_request ioc_h fr))) = ?p"
       "srv_len (decoded_request ioc_h fr) = int (padded_len (1 + length ?p)) - 4"
    by blast
  from T(1) x have fr: "fr = ?fr" by (simp only: e append_Nil list.inject prod.inject)
  have c1: "\<exists>r' d'. cbc_copy_to_ring ioc_h ?fr (ring ioc0) = (0, r', []) \<and>
      cbc_unpack_link ioc_h (ioc0\<lparr>ring := r'\<rparr>) = Some d' \<and>
      rx_queue d' = [decoded_request ioc_h ?fr] \<and> ring_avalids ioc_h (ring d') = 0"
    using T(2,3,4,5) unfolding fr e append_Nil by blast
  have c2: "req_id (req (cbc_rx_handler ioc_h ((tx0 [])\<lparr>req := decoded_request ioc_h ?fr\<rparr>))) = 2"
    using T(6) unfolding fr by blast
  note c3 = T(7,8,9) [unfolded fr]
  show ?thesis
    by (intro conjI) (rule h1 h2 h3 h4 h5 h6 h7 h8 h9 h10 h11 h12 h13 x c1 c2 c3)+
qed

text \<open>
  Claim C1, as stated for every request. The request with the service length 2 (command
  byte 0x02, payload 0xAA) on channel 2 is decoded with the service length 4: the three
  bytes after its command byte are 0xAA, 0xFF, 0xFF, not the payload 0xAA. The same
  request with the channel id 32 is sent with the multiplexer field 0 and is decoded on
  channel 0.
\<close>

theorem round_trip_pads_and_truncates:
  "link_len (req w1) = 0 \<and> srv_len (req w1) = 2 \<and> req_id (req w1) = 2 \<and>
   get_buf w1 (CBC_SRV_POS ioc_h) = 0x02 \<and>
   take 1 (drop (CBC_PAYLOAD_POS ioc_h) (req_buf (req w1))) = [0xAA] \<and>
   xmit_log (cbc_send_pkt ioc_h w1) =
     [(IOC_VIRTUAL_UART ioc_h, [0x05, 0x00, 0x16, 0x02, 0xAA, 0xFF, 0xFF, 0x3B])] \<and>
   map_option rx_queue (cbc_unpack_link ioc_h (ioc0\<lparr>ring := fst (snd (cbc_copy_to_ring ioc_h
       [0x05, 0x00, 0x16, 0x02, 0xAA, 0xFF, 0xFF, 0x3B] (ring ioc0)))\<rparr>)) =
     Some [\<lparr>srv_len = 4, link_len = 8, req_id = 0, rtype = CBC_REQ_T_PROT ioc_h,
            req_buf = [0x05, 0x00, 0x16, 0x02, 0xAA, 0xFF, 0xFF, 0x3B]\<rparr>] \<and>
   take (4 - 1) (drop (CBC_PAYLOAD_POS ioc_h)
       [0x05, 0x00, 0x16, 0x02, 0xAA, 0xFF, 0xFF, 0x3B :: u8]) = [0xAA, 0xFF, 0xFF] \<and>
   link_len (req w1_far) = 0 \<and> srv_len (req w1_far) = 2 \<and> req_id (req w1_far) = 32 \<and>
   xmit_log (cbc_send_pkt ioc_h w1_far) =
     [(IOC_VIRTUAL_UART ioc_h, [0x05, 0x00, 0x03, 0x02, 0xAA, 0xFF, 0xFF, 0x4E])] \<and>
   map_option rx_queue (cbc_unpack_link ioc_h (ioc0\<lparr>ring := fst (snd (cbc_copy_to_ring ioc_h
       [0x05, 0x00, 0x03, 0x02, 0xAA, 0xFF, 0xFF, 0x4E] (ring ioc0)))\<rparr>)) =
     Some [\<lparr>srv_len = 4, link_len = 8, req_id = 0, rtype = CBC_REQ_T_PROT ioc_h,
            req_buf = [0x05, 0x00, 0x03, 0x02, 0xAA, 0xFF, 0xFF, 0x4E]\<rparr>] \<and>
   req_id (req (cbc_rx_handler ioc_h ((tx0 [])\<lparr>req :=
       \<lparr>srv_len = 4, link_len = 8, req_id = 0, rtype = CBC_REQ_T_PROT ioc_h,
        req_buf = [0x05, 0x00, 0x03, 0x02, 0xAA, 0xFF, 0xFF, 0x4E]\<rparr>\<rparr>))) = 0"
  by code_simp


end
